theory Spec2Isabelle
  imports Main "HOL-Library.Word"
begin

unbundle bit_operations_syntax

section \<open>Data model: nodes, root, memory\<close>

text \<open>
  Node references are machine addresses (\<^verbatim>\<open>struct ph_node *\<close>, cast to
  \<^verbatim>\<open>unsigned long\<close> by \<^verbatim>\<open>PH_EMPTY_NODE\<close>); \<^verbatim>\<open>NULL\<close> is address 0.

  \<^verbatim>\<open>struct ph_node\<close> as declared in \<^verbatim>\<open>tools/include/linux/phtree.h\<close> lists the two
  members \<^verbatim>\<open>ph_right\<close> and \<^verbatim>\<open>ph_left\<close> only. The member \<^verbatim>\<open>__ph_parent_color\<close> of the
  record below is the one that \<^verbatim>\<open>PH_EMPTY_NODE\<close> of the same header reads and that every
  function of \<^verbatim>\<open>lib/phtree.c\<close> goes through (\<^verbatim>\<open>ph_parent\<close>, \<^verbatim>\<open>ph_set_parent_color\<close>, ...).
\<close>

type_synonym addr = "64 word"

record ph_node =
  ph_right :: addr
  ph_left :: addr
  ph_parent_color :: addr

type_synonym ph_memory = "addr \<Rightarrow> ph_node"

text \<open>\<^verbatim>\<open>struct ph_root { struct ph_node *ph_node; }\<close> together with the memory the nodes
  live in.\<close>

record ph_state =
  ph_root :: addr
  ph_mem :: ph_memory

text \<open>\<^verbatim>\<open>__attribute__((aligned(sizeof(long))))\<close> on \<^verbatim>\<open>struct ph_node\<close>.\<close>

definition ph_aligned :: "addr \<Rightarrow> bool" where
  "ph_aligned a = (a AND 7 = 0)"

text \<open>\<^verbatim>\<open>#define PH_EMPTY_NODE(node) ((node)->__ph_parent_color == (unsigned long)(node))\<close>
  (spelled \<^verbatim>\<open>ph_EMPTY_NODE\<close> where \<^verbatim>\<open>lib/phtree.c\<close> uses it).\<close>

definition PH_EMPTY_NODE :: "ph_memory \<Rightarrow> addr \<Rightarrow> bool" where
  "PH_EMPTY_NODE h node = (ph_parent_color (h node) = node)"

subsection \<open>Accessors of the packed parent and colour\<close>

text \<open>Modelled from the spec: the colour constants \<^verbatim>\<open>ph_RED\<close> and \<^verbatim>\<open>ph_BLACK\<close> are not
  defined under src/. The colour is one bit packed into the parent reference; an empty node
  (\<^verbatim>\<open>PH_EMPTY_NODE\<close>) has the bit clear, and RED is the colour of a node that has just been
  linked, so RED is the clear bit.\<close>

definition ph_RED :: addr where
  "ph_RED = 0"

definition ph_BLACK :: addr where
  "ph_BLACK = 1"

text \<open>Modelled from the spec: the body of \<^verbatim>\<open>ph_parent\<close> is cut off in the header
  (\<^verbatim>\<open>#define ph_parent(r) ((struct ph_node *)\<close>). The parent reference is the packed
  field without its stolen low bit.\<close>

definition ph_parent :: "ph_memory \<Rightarrow> addr \<Rightarrow> addr" where
  "ph_parent h r = ph_parent_color (h r) AND NOT 1"

text \<open>Modelled from the spec: \<^verbatim>\<open>ph_red_parent\<close> is not under src/; it is the parent
  reference of a node known to be RED.\<close>

definition ph_red_parent :: "ph_memory \<Rightarrow> addr \<Rightarrow> addr" where
  "ph_red_parent h red = ph_parent h red"

text \<open>Modelled from the spec: \<^verbatim>\<open>ph_is_red\<close> and \<^verbatim>\<open>ph_is_black\<close> are not under src/; they
  test the one-bit colour.\<close>

definition ph_color :: "ph_memory \<Rightarrow> addr \<Rightarrow> addr" where
  "ph_color h r = ph_parent_color (h r) AND 1"

definition ph_is_red :: "ph_memory \<Rightarrow> addr \<Rightarrow> bool" where
  "ph_is_red h r = (ph_color h r = ph_RED)"

definition ph_is_black :: "ph_memory \<Rightarrow> addr \<Rightarrow> bool" where
  "ph_is_black h r = (ph_color h r = ph_BLACK)"

text \<open>Modelled from the spec: \<^verbatim>\<open>ph_set_parent_color\<close> and \<^verbatim>\<open>ph_set_parent\<close> are not under
  src/. The first stores a parent reference and a colour, the second a parent reference,
  keeping the colour.\<close>

definition ph_set_parent_color :: "ph_memory \<Rightarrow> addr \<Rightarrow> addr \<Rightarrow> addr \<Rightarrow> ph_memory" where
  "ph_set_parent_color h n p color = h(n := (h n)\<lparr>ph_parent_color := p OR color\<rparr>)"

definition ph_set_parent :: "ph_memory \<Rightarrow> addr \<Rightarrow> addr \<Rightarrow> ph_memory" where
  "ph_set_parent h n p = h(n := (h n)\<lparr>ph_parent_color := ph_color h n OR p\<rparr>)"

subsection \<open>Linking a node\<close>

text \<open>The \<^verbatim>\<open>struct ph_node **\<close> handed to \<^verbatim>\<open>ph_link_node\<close>: the root's \<^verbatim>\<open>ph_node\<close>, or the
  \<^verbatim>\<open>ph_left\<close> or \<^verbatim>\<open>ph_right\<close> member of a node.\<close>

datatype ph_link = ROOT_LINK | LEFT_LINK addr | RIGHT_LINK addr

fun write_link :: "ph_state \<Rightarrow> ph_link \<Rightarrow> addr \<Rightarrow> ph_state" where
  "write_link s ROOT_LINK v = s\<lparr>ph_root := v\<rparr>"
| "write_link s (LEFT_LINK p) v = s\<lparr>ph_mem := (ph_mem s)(p := (ph_mem s p)\<lparr>ph_left := v\<rparr>)\<rparr>"
| "write_link s (RIGHT_LINK p) v = s\<lparr>ph_mem := (ph_mem s)(p := (ph_mem s p)\<lparr>ph_right := v\<rparr>)\<rparr>"

text \<open>
  \<^verbatim>\<open>
  static inline void ph_link_node(struct ph_node *node, struct ph_node *parent,
                                  struct ph_node **ph_link)
  {
          node->ph_left = node->ph_right = NULL;
          *ph_link = node;
  }
  \<close>
\<close>

definition ph_link_node :: "ph_state \<Rightarrow> addr \<Rightarrow> addr \<Rightarrow> ph_link \<Rightarrow> ph_state" where
  "ph_link_node s node parent link =
     write_link
       (s\<lparr>ph_mem := (ph_mem s)(node := (ph_mem s node)\<lparr>ph_right := 0, ph_left := 0\<rparr>)\<rparr>)
       link node"

subsection \<open>In-order traversal\<close>

text \<open>The loops \<^verbatim>\<open>while (n->ph_left) n = n->ph_left;\<close> and its mirror.\<close>

partial_function (option) ph_descend_left :: "ph_memory \<Rightarrow> addr \<Rightarrow> addr option" where
  "ph_descend_left h n =
     (if ph_left (h n) \<noteq> 0 then ph_descend_left h (ph_left (h n)) else Some n)"

partial_function (option) ph_descend_right :: "ph_memory \<Rightarrow> addr \<Rightarrow> addr option" where
  "ph_descend_right h n =
     (if ph_right (h n) \<noteq> 0 then ph_descend_right h (ph_right (h n)) else Some n)"

definition ph_first :: "ph_state \<Rightarrow> addr option" where
  "ph_first s = (if ph_root s = 0 then Some 0 else ph_descend_left (ph_mem s) (ph_root s))"

definition ph_last :: "ph_state \<Rightarrow> addr option" where
  "ph_last s = (if ph_root s = 0 then Some 0 else ph_descend_right (ph_mem s) (ph_root s))"

text \<open>\<^verbatim>\<open>while ((parent = ph_parent(node)) && node == parent->ph_right) node = parent;
  return parent;\<close> and its mirror.\<close>

partial_function (option) ph_next_climb :: "ph_memory \<Rightarrow> addr \<Rightarrow> addr option" where
  "ph_next_climb h node =
     (if ph_parent h node \<noteq> 0 \<and> node = ph_right (h (ph_parent h node))
      then ph_next_climb h (ph_parent h node)
      else Some (ph_parent h node))"

partial_function (option) ph_prev_climb :: "ph_memory \<Rightarrow> addr \<Rightarrow> addr option" where
  "ph_prev_climb h node =
     (if ph_parent h node \<noteq> 0 \<and> node = ph_left (h (ph_parent h node))
      then ph_prev_climb h (ph_parent h node)
      else Some (ph_parent h node))"

definition ph_next :: "ph_memory \<Rightarrow> addr \<Rightarrow> addr option" where
  "ph_next h node =
     (if PH_EMPTY_NODE h node then Some 0
      else if ph_right (h node) \<noteq> 0 then ph_descend_left h (ph_right (h node))
      else ph_next_climb h node)"

definition ph_prev :: "ph_memory \<Rightarrow> addr \<Rightarrow> addr option" where
  "ph_prev h node =
     (if PH_EMPTY_NODE h node then Some 0
      else if ph_left (h node) \<noteq> 0 then ph_descend_right h (ph_left (h node))
      else ph_prev_climb h node)"

text \<open>The iteration idiom \<^verbatim>\<open>for (n = ph_first(root); n; n = ph_next(n))\<close>, collecting the
  nodes it visits, and its mirror with \<^verbatim>\<open>ph_last\<close> and \<^verbatim>\<open>ph_prev\<close>.\<close>

partial_function (option) ph_next_walk :: "ph_memory \<Rightarrow> addr \<Rightarrow> addr list option" where
  "ph_next_walk h n =
     (if n = 0 then Some []
      else Option.bind (ph_next h n)
             (\<lambda>m. Option.bind (ph_next_walk h m) (\<lambda>ns. Some (n # ns))))"

partial_function (option) ph_prev_walk :: "ph_memory \<Rightarrow> addr \<Rightarrow> addr list option" where
  "ph_prev_walk h n =
     (if n = 0 then Some []
      else Option.bind (ph_prev h n)
             (\<lambda>m. Option.bind (ph_prev_walk h m) (\<lambda>ns. Some (n # ns))))"

definition ph_forward :: "ph_state \<Rightarrow> addr list option" where
  "ph_forward s = Option.bind (ph_first s) (ph_next_walk (ph_mem s))"

definition ph_backward :: "ph_state \<Rightarrow> addr list option" where
  "ph_backward s = Option.bind (ph_last s) (ph_prev_walk (ph_mem s))"

subsection \<open>Postorder traversal\<close>

partial_function (option) ph_left_deepest_node :: "ph_memory \<Rightarrow> addr \<Rightarrow> addr option" where
  "ph_left_deepest_node h node =
     (if ph_left (h node) \<noteq> 0 then ph_left_deepest_node h (ph_left (h node))
      else if ph_right (h node) \<noteq> 0 then ph_left_deepest_node h (ph_right (h node))
      else Some node)"

definition ph_next_postorder :: "ph_memory \<Rightarrow> addr \<Rightarrow> addr option" where
  "ph_next_postorder h node =
     (if node = 0 then Some 0
      else if ph_parent h node \<noteq> 0 \<and> node = ph_left (h (ph_parent h node)) \<and>
              ph_right (h (ph_parent h node)) \<noteq> 0
      then ph_left_deepest_node h (ph_right (h (ph_parent h node)))
      else Some (ph_parent h node))"

definition ph_first_postorder :: "ph_state \<Rightarrow> addr option" where
  "ph_first_postorder s =
     (if ph_root s = 0 then Some 0 else ph_left_deepest_node (ph_mem s) (ph_root s))"

text \<open>The loop of \<^verbatim>\<open>phtree_postorder_for_each_entry_safe\<close>: from \<^verbatim>\<open>ph_first_postorder\<close>,
  \<^verbatim>\<open>ph_next_postorder\<close> until \<^verbatim>\<open>NULL\<close>.\<close>

partial_function (option) ph_postorder_walk :: "ph_memory \<Rightarrow> addr \<Rightarrow> addr list option" where
  "ph_postorder_walk h n =
     (if n = 0 then Some []
      else Option.bind (ph_next_postorder h n)
             (\<lambda>m. Option.bind (ph_postorder_walk h m) (\<lambda>ns. Some (n # ns))))"

definition ph_postorder :: "ph_state \<Rightarrow> addr list option" where
  "ph_postorder s = Option.bind (ph_first_postorder s) (ph_postorder_walk (ph_mem s))"

subsection \<open>Replacing a node\<close>

text \<open>Modelled from the spec: \<^verbatim>\<open>__ph_change_child\<close> is not under src/. It repoints the
  child slot of \<open>parent\<close> that holds \<open>old\<close> to \<open>new\<close>, or the root when there is no parent.\<close>

definition ph_change_child :: "ph_state \<Rightarrow> addr \<Rightarrow> addr \<Rightarrow> addr \<Rightarrow> ph_state" where
  "ph_change_child s old new parent =
     (if parent \<noteq> 0 then
        (if ph_left (ph_mem s parent) = old then write_link s (LEFT_LINK parent) new
         else write_link s (RIGHT_LINK parent) new)
      else write_link s ROOT_LINK new)"

text \<open>
  \<^verbatim>\<open>
  struct ph_node *parent = ph_parent(victim);
  *new = *victim;
  if (victim->ph_left)  ph_set_parent(victim->ph_left, new);
  if (victim->ph_right) ph_set_parent(victim->ph_right, new);
  __ph_change_child(victim, new, parent, root);
  \<close>
\<close>

definition ph_replace_node :: "ph_state \<Rightarrow> addr \<Rightarrow> addr \<Rightarrow> ph_state" where
  "ph_replace_node s victim new =
     (let parent = ph_parent (ph_mem s) victim;
          h1 = (ph_mem s)(new := ph_mem s victim);
          h2 = (if ph_left (h1 victim) \<noteq> 0 then ph_set_parent h1 (ph_left (h1 victim)) new else h1);
          h3 = (if ph_right (h2 victim) \<noteq> 0 then ph_set_parent h2 (ph_right (h2 victim)) new else h2)
      in ph_change_child (s\<lparr>ph_mem := h3\<rparr>) victim new parent)"

subsection \<open>Insert fixup\<close>

text \<open>Modelled from the spec: \<^verbatim>\<open>__ph_rotate_set_parents\<close> is not under src/. It completes a
  rotation that makes \<open>new\<close> the root of the subtree \<open>old\<close> was the root of: \<open>new\<close> takes over
  the parent and the colour of \<open>old\<close>, \<open>old\<close> gets \<open>new\<close> as its parent and the given colour,
  and the child slot of the parent of \<open>old\<close> (or the root) is repointed to \<open>new\<close>.\<close>

definition ph_rotate_set_parents :: "ph_state \<Rightarrow> addr \<Rightarrow> addr \<Rightarrow> addr \<Rightarrow> ph_state" where
  "ph_rotate_set_parents s old new color =
     (let parent = ph_parent (ph_mem s) old;
          h1 = (ph_mem s)(new := (ph_mem s new)\<lparr>ph_parent_color := ph_parent_color (ph_mem s old)\<rparr>);
          h2 = ph_set_parent_color h1 old new color
      in ph_change_child (s\<lparr>ph_mem := h2\<rparr>) old new parent)"

text \<open>Case 1 of \<^verbatim>\<open>__ph_insert\<close> (the same statements on both sides): the colour flips, and
  the parent of the grandparent, read before the grandparent is recoloured.
  \<^verbatim>\<open>
  ph_set_parent_color(tmp, gparent, ph_BLACK);
  ph_set_parent_color(parent, gparent, ph_BLACK);
  node = gparent;
  parent = ph_parent(node);
  ph_set_parent_color(node, parent, ph_RED);
  \<close>\<close>

definition insert_case1 :: "ph_state \<Rightarrow> addr \<Rightarrow> addr \<Rightarrow> addr \<Rightarrow> ph_state \<times> addr" where
  "insert_case1 s tmp parent gparent =
     (let h1 = ph_set_parent_color (ph_mem s) tmp gparent ph_BLACK;
          h2 = ph_set_parent_color h1 parent gparent ph_BLACK;
          node = gparent;
          parent1 = ph_parent h2 node;
          h3 = ph_set_parent_color h2 node parent1 ph_RED
      in (s\<lparr>ph_mem := h3\<rparr>, parent1))"

text \<open>Case 2 where the parent is the left child of the grandparent (left rotate at parent):
  \<^verbatim>\<open>
  tmp = node->ph_left;
  WRITE_ONCE(parent->ph_right, tmp);
  WRITE_ONCE(node->ph_left, parent);
  if (tmp) ph_set_parent_color(tmp, parent, ph_BLACK);
  ph_set_parent_color(parent, node, ph_RED);
  augment_rotate(parent, node);
  \<close>
  The callback \<open>augment_rotate\<close> reads the state and updates the caller's data \<open>u\<close>.\<close>

definition insert_case2_L ::
  "(ph_state \<Rightarrow> addr \<Rightarrow> addr \<Rightarrow> 'u \<Rightarrow> 'u) \<Rightarrow> ph_state \<Rightarrow> 'u \<Rightarrow> addr \<Rightarrow> addr \<Rightarrow> ph_state \<times> 'u" where
  "insert_case2_L augment_rotate s u node parent =
     (let tmp = ph_left (ph_mem s node);
          h1 = (ph_mem s)(parent := (ph_mem s parent)\<lparr>ph_right := tmp\<rparr>);
          h2 = h1(node := (h1 node)\<lparr>ph_left := parent\<rparr>);
          h3 = (if tmp \<noteq> 0 then ph_set_parent_color h2 tmp parent ph_BLACK else h2);
          h4 = ph_set_parent_color h3 parent node ph_RED;
          s1 = s\<lparr>ph_mem := h4\<rparr>
      in (s1, augment_rotate s1 parent node u))"

text \<open>Case 3 where the parent is the left child of the grandparent (right rotate at
  gparent):
  \<^verbatim>\<open>
  WRITE_ONCE(gparent->ph_left, tmp);
  WRITE_ONCE(parent->ph_right, gparent);
  if (tmp) ph_set_parent_color(tmp, gparent, ph_BLACK);
  __ph_rotate_set_parents(gparent, parent, root, ph_RED);
  augment_rotate(gparent, parent);
  \<close>\<close>

definition insert_case3_L ::
  "(ph_state \<Rightarrow> addr \<Rightarrow> addr \<Rightarrow> 'u \<Rightarrow> 'u) \<Rightarrow> ph_state \<Rightarrow> 'u \<Rightarrow> addr \<Rightarrow> addr \<Rightarrow> addr \<Rightarrow> ph_state \<times> 'u" where
  "insert_case3_L augment_rotate s u gparent parent tmp =
     (let h1 = (ph_mem s)(gparent := (ph_mem s gparent)\<lparr>ph_left := tmp\<rparr>);
          h2 = h1(parent := (h1 parent)\<lparr>ph_right := gparent\<rparr>);
          h3 = (if tmp \<noteq> 0 then ph_set_parent_color h2 tmp gparent ph_BLACK else h2);
          s1 = ph_rotate_set_parents (s\<lparr>ph_mem := h3\<rparr>) gparent parent ph_RED
      in (s1, augment_rotate s1 gparent parent u))"

text \<open>The mirrored cases 2 and 3, where the parent is the right child of the grandparent.\<close>

definition insert_case2_R ::
  "(ph_state \<Rightarrow> addr \<Rightarrow> addr \<Rightarrow> 'u \<Rightarrow> 'u) \<Rightarrow> ph_state \<Rightarrow> 'u \<Rightarrow> addr \<Rightarrow> addr \<Rightarrow> ph_state \<times> 'u" where
  "insert_case2_R augment_rotate s u node parent =
     (let tmp = ph_right (ph_mem s node);
          h1 = (ph_mem s)(parent := (ph_mem s parent)\<lparr>ph_left := tmp\<rparr>);
          h2 = h1(node := (h1 node)\<lparr>ph_right := parent\<rparr>);
          h3 = (if tmp \<noteq> 0 then ph_set_parent_color h2 tmp parent ph_BLACK else h2);
          h4 = ph_set_parent_color h3 parent node ph_RED;
          s1 = s\<lparr>ph_mem := h4\<rparr>
      in (s1, augment_rotate s1 parent node u))"

definition insert_case3_R ::
  "(ph_state \<Rightarrow> addr \<Rightarrow> addr \<Rightarrow> 'u \<Rightarrow> 'u) \<Rightarrow> ph_state \<Rightarrow> 'u \<Rightarrow> addr \<Rightarrow> addr \<Rightarrow> addr \<Rightarrow> ph_state \<times> 'u" where
  "insert_case3_R augment_rotate s u gparent parent tmp =
     (let h1 = (ph_mem s)(gparent := (ph_mem s gparent)\<lparr>ph_right := tmp\<rparr>);
          h2 = h1(parent := (h1 parent)\<lparr>ph_left := gparent\<rparr>);
          h3 = (if tmp \<noteq> 0 then ph_set_parent_color h2 tmp gparent ph_BLACK else h2);
          s1 = ph_rotate_set_parents (s\<lparr>ph_mem := h3\<rparr>) gparent parent ph_RED
      in (s1, augment_rotate s1 gparent parent u))"

text \<open>The \<^verbatim>\<open>while (true)\<close> loop of \<^verbatim>\<open>__ph_insert\<close>, on the loop variables \<open>node\<close> and \<open>parent\<close>.
  The result is \<open>None\<close> when the loop does not return; so it is where the source reads
  \<^verbatim>\<open>gparent->ph_right\<close> through a \<^verbatim>\<open>NULL\<close> grandparent.\<close>

partial_function (option) ph_insert_loop ::
  "(ph_state \<Rightarrow> addr \<Rightarrow> addr \<Rightarrow> 'u \<Rightarrow> 'u) \<Rightarrow> ph_state \<Rightarrow> 'u \<Rightarrow> addr \<Rightarrow> addr \<Rightarrow> (ph_state \<times> 'u) option"
where
  "ph_insert_loop augment_rotate s u node parent =
    (if parent = 0 then
       Some (s\<lparr>ph_mem := ph_set_parent_color (ph_mem s) node 0 ph_BLACK\<rparr>, u)
     else if ph_is_black (ph_mem s) parent then Some (s, u)
     else
      (let gparent = ph_red_parent (ph_mem s) parent in
       if gparent = 0 then None
       else if parent \<noteq> ph_right (ph_mem s gparent) then
         (let tmp = ph_right (ph_mem s gparent) in
          if tmp \<noteq> 0 \<and> ph_is_red (ph_mem s) tmp then
            (let (s1, parent1) = insert_case1 s tmp parent gparent
             in ph_insert_loop augment_rotate s1 u gparent parent1)
          else if node = ph_right (ph_mem s parent) then
            (let (s1, u1) = insert_case2_L augment_rotate s u node parent
             in Some (insert_case3_L augment_rotate s1 u1 gparent node (ph_right (ph_mem s1 node))))
          else
            Some (insert_case3_L augment_rotate s u gparent parent (ph_right (ph_mem s parent))))
       else
         (let tmp = ph_left (ph_mem s gparent) in
          if tmp \<noteq> 0 \<and> ph_is_red (ph_mem s) tmp then
            (let (s1, parent1) = insert_case1 s tmp parent gparent
             in ph_insert_loop augment_rotate s1 u gparent parent1)
          else if node = ph_left (ph_mem s parent) then
            (let (s1, u1) = insert_case2_R augment_rotate s u node parent
             in Some (insert_case3_R augment_rotate s1 u1 gparent node (ph_left (ph_mem s1 node))))
          else
            Some (insert_case3_R augment_rotate s u gparent parent (ph_left (ph_mem s parent))))))"

text \<open>\<^verbatim>\<open>__ph_insert\<close>: the loop, entered with \<^verbatim>\<open>parent = ph_red_parent(node)\<close>.
  \<^verbatim>\<open>__ph_insert_augmented\<close> is the same function with the caller's callback.\<close>

definition ph_insert ::
  "(ph_state \<Rightarrow> addr \<Rightarrow> addr \<Rightarrow> 'u \<Rightarrow> 'u) \<Rightarrow> ph_state \<Rightarrow> 'u \<Rightarrow> addr \<Rightarrow> (ph_state \<times> 'u) option" where
  "ph_insert augment_rotate s u node =
     (if node = 0 then None
      else ph_insert_loop augment_rotate s u node (ph_red_parent (ph_mem s) node))"

definition ph_insert_augmented ::
  "(ph_state \<Rightarrow> addr \<Rightarrow> addr \<Rightarrow> 'u \<Rightarrow> 'u) \<Rightarrow> ph_state \<Rightarrow> 'u \<Rightarrow> addr \<Rightarrow> (ph_state \<times> 'u) option" where
  "ph_insert_augmented augment_rotate s u node = ph_insert augment_rotate s u node"

text \<open>\<^verbatim>\<open>static inline void dummy_rotate(struct ph_node *old, struct ph_node *new) {}\<close>\<close>

definition dummy_rotate :: "ph_state \<Rightarrow> addr \<Rightarrow> addr \<Rightarrow> unit \<Rightarrow> unit" where
  "dummy_rotate s old new u = u"

definition ph_insert_color :: "ph_state \<Rightarrow> addr \<Rightarrow> ph_state option" where
  "ph_insert_color s node = map_option fst (ph_insert dummy_rotate s () node)"

text \<open>An insertion as a caller makes it: \<^verbatim>\<open>ph_link_node(node, parent, link);
  ph_insert_color(node, root);\<close>\<close>

definition ph_link_and_insert :: "ph_state \<Rightarrow> addr \<Rightarrow> addr \<Rightarrow> ph_link \<Rightarrow> ph_state option" where
  "ph_link_and_insert s node parent link = ph_insert_color (ph_link_node s node parent link) node"

section \<open>The tree a state represents\<close>

text \<open>
  The shape, the node identities and the colours of a tree, as a value. \<open>tree_at h par t\<close>
  says that memory \<open>h\<close> holds \<open>t\<close> below the parent \<open>par\<close>: each node is a non-null aligned
  address, its links are the roots of its subtrees, its packed field holds its parent and
  its colour, and no address occurs twice.
\<close>

datatype color = Red | Black

fun color_bit :: "color \<Rightarrow> addr" where
  "color_bit Red = ph_RED"
| "color_bit Black = ph_BLACK"

datatype tree = Leaf | Node tree addr color tree

fun root_of :: "tree \<Rightarrow> addr" where
  "root_of Leaf = 0"
| "root_of (Node l a c r) = a"

fun nodes :: "tree \<Rightarrow> addr set" where
  "nodes Leaf = {}"
| "nodes (Node l a c r) = insert a (nodes l \<union> nodes r)"

fun inorder :: "tree \<Rightarrow> addr list" where
  "inorder Leaf = []"
| "inorder (Node l a c r) = inorder l @ a # inorder r"

fun postorder :: "tree \<Rightarrow> addr list" where
  "postorder Leaf = []"
| "postorder (Node l a c r) = postorder l @ postorder r @ [a]"

fun tree_at :: "ph_memory \<Rightarrow> addr \<Rightarrow> tree \<Rightarrow> bool" where
  "tree_at h par Leaf = True"
| "tree_at h par (Node l a c r) =
     (a \<noteq> 0 \<and> ph_aligned a \<and>
      ph_left (h a) = root_of l \<and> ph_right (h a) = root_of r \<and>
      ph_parent_color (h a) = par OR color_bit c \<and>
      a \<notin> nodes l \<and> a \<notin> nodes r \<and> nodes l \<inter> nodes r = {} \<and>
      tree_at h a l \<and> tree_at h a r)"

definition ph_tree :: "ph_state \<Rightarrow> tree \<Rightarrow> bool" where
  "ph_tree s t = (ph_root s = root_of t \<and> tree_at (ph_mem s) 0 t)"

text \<open>The same tree with the node \<open>v\<close> replaced by the node \<open>n\<close>.\<close>

fun rename_node :: "addr \<Rightarrow> addr \<Rightarrow> tree \<Rightarrow> tree" where
  "rename_node v n Leaf = Leaf"
| "rename_node v n (Node l a c r) =
     Node (rename_node v n l) (if a = v then n else a) c (rename_node v n r)"

subsection \<open>The red-black invariants\<close>

fun root_color :: "tree \<Rightarrow> color" where
  "root_color Leaf = Black"
| "root_color (Node l a c r) = c"

text \<open>No RED node has a RED child.\<close>

fun no_red_red :: "tree \<Rightarrow> bool" where
  "no_red_red Leaf = True"
| "no_red_red (Node l a c r) =
     ((c = Black \<or> root_color l = Black \<and> root_color r = Black) \<and> no_red_red l \<and> no_red_red r)"

text \<open>The number of BLACK nodes on the leftmost path, and the check that every path to an
  absent child has that many.\<close>

fun black_height :: "tree \<Rightarrow> nat" where
  "black_height Leaf = 0"
| "black_height (Node l a c r) = black_height l + (if c = Black then 1 else 0)"

fun black_balanced :: "tree \<Rightarrow> bool" where
  "black_balanced Leaf = True"
| "black_balanced (Node l a c r) =
     (black_height l = black_height r \<and> black_balanced l \<and> black_balanced r)"

definition rb_tree :: "tree \<Rightarrow> bool" where
  "rb_tree t = (root_color t = Black \<and> no_red_red t \<and> black_balanced t)"

text \<open>The tree that the child links and the colours lay out in memory from \<open>p\<close> on, the
  parent references not looked at.\<close>

fun links_at :: "ph_memory \<Rightarrow> addr \<Rightarrow> tree \<Rightarrow> bool" where
  "links_at h p Leaf = (p = 0)"
| "links_at h p (Node l a c r) =
     (p = a \<and> a \<noteq> 0 \<and> ph_color h a = color_bit c \<and>
      links_at h (ph_left (h a)) l \<and> links_at h (ph_right (h a)) r)"

subsection \<open>Positions in a tree\<close>

text \<open>The way from a subtree up to the root: for each ancestor, innermost first, the side
  the subtree hangs on, the ancestor's address and colour, and the sibling subtree.\<close>

datatype frame = Left_of addr color tree | Right_of tree addr color

fun frame_addr :: "frame \<Rightarrow> addr" where
  "frame_addr (Left_of a c r) = a"
| "frame_addr (Right_of l a c) = a"

fun frame_color :: "frame \<Rightarrow> color" where
  "frame_color (Left_of a c r) = c"
| "frame_color (Right_of l a c) = c"

fun sibling :: "frame \<Rightarrow> tree" where
  "sibling (Left_of a c r) = r"
| "sibling (Right_of l a c) = l"

fun plug1 :: "frame \<Rightarrow> tree \<Rightarrow> tree" where
  "plug1 (Left_of a c r) t = Node t a c r"
| "plug1 (Right_of l a c) t = Node l a c t"

fun plug :: "frame list \<Rightarrow> tree \<Rightarrow> tree" where
  "plug [] t = t"
| "plug (f # fs) t = plug fs (plug1 f t)"

fun ctx_nodes :: "frame list \<Rightarrow> addr set" where
  "ctx_nodes [] = {}"
| "ctx_nodes (f # fs) = insert (frame_addr f) (nodes (sibling f)) \<union> ctx_nodes fs"

text \<open>The parent of the subtree at the position \<open>fs\<close>, in a tree whose root has parent \<open>par\<close>.\<close>

fun hole_parent :: "addr \<Rightarrow> frame list \<Rightarrow> addr" where
  "hole_parent par [] = par"
| "hole_parent par (f # fs) = frame_addr f"

text \<open>Storing \<open>v\<close> in the child link of the ancestor \<open>f\<close> that leads to the position.\<close>

fun relink :: "frame \<Rightarrow> ph_node \<Rightarrow> addr \<Rightarrow> ph_node" where
  "relink (Left_of a c r) nd v = nd\<lparr>ph_left := v\<rparr>"
| "relink (Right_of l a c) nd v = nd\<lparr>ph_right := v\<rparr>"

text \<open>The ancestors of a node about to be fixed up: there is no RED node with a RED child
  among them and their other subtrees, except that the innermost ancestor may be RED; the
  root is BLACK.\<close>

fun ctx_ok :: "frame list \<Rightarrow> bool" where
  "ctx_ok [] = True"
| "ctx_ok [f] = (frame_color f = Black \<and> no_red_red (sibling f))"
| "ctx_ok (f # g # fs) =
     (no_red_red (sibling f) \<and>
      (frame_color f = Black \<or> root_color (sibling f) = Black \<and> frame_color g = Black) \<and>
      ctx_ok (g # fs))"

text \<open>The loop invariant of \<^verbatim>\<open>__ph_insert\<close>: the node is RED, below it no RED node has a
  RED child, and the ancestors are as above.\<close>

definition insert_inv :: "frame list \<Rightarrow> tree \<Rightarrow> bool" where
  "insert_inv fs t = (t \<noteq> Leaf \<and> root_color t = Red \<and> no_red_red t \<and> ctx_ok fs)"

subsection \<open>Insert fixup as the case analysis on the tree\<close>

fun paint :: "color \<Rightarrow> tree \<Rightarrow> tree" where
  "paint c Leaf = Leaf"
| "paint c (Node l a _ r) = Node l a c r"

text \<open>A rotation makes a child the root of the subtree: \<open>rotate_left\<close> the right child,
  \<open>rotate_right\<close> the left child. The colours stay with the nodes.\<close>

fun rotate_left :: "tree \<Rightarrow> tree" where
  "rotate_left (Node a x cx (Node b y cy c)) = Node (Node a x cx b) y cy c"
| "rotate_left t = t"

fun rotate_right :: "tree \<Rightarrow> tree" where
  "rotate_right (Node (Node a x cx b) y cy c) = Node a x cx (Node b y cy c)"
| "rotate_right t = t"

text \<open>Case 3: rotate at the grandparent, recolour the former parent BLACK and the former
  grandparent RED.\<close>

fun case3_left :: "tree \<Rightarrow> tree" where
  "case3_left g =
     (case rotate_right g of
        Node a p _ (Node b g' _ u) \<Rightarrow> Node a p Black (Node b g' Red u)
      | t \<Rightarrow> t)"

fun case3_right :: "tree \<Rightarrow> tree" where
  "case3_right g =
     (case rotate_left g of
        Node (Node u g' _ b) p _ c \<Rightarrow> Node (Node u g' Red b) p Black c
      | t \<Rightarrow> t)"

text \<open>Case 1: recolour parent and uncle BLACK and the grandparent RED.\<close>

fun case1 :: "frame \<Rightarrow> frame \<Rightarrow> tree \<Rightarrow> tree" where
  "case1 f (Left_of g _ u) t = Node (paint Black (plug1 f t)) g Red (paint Black u)"
| "case1 f (Right_of u g _) t = Node (paint Black u) g Red (paint Black (plug1 f t))"

text \<open>
  The fixup of the subtree \<open>t\<close> rooted at the node, below the ancestors \<open>fs\<close>; the result
  is the whole tree.
  \<^item> No parent: recolour the node BLACK.
  \<^item> BLACK parent: nothing to do.
  \<^item> RED parent and RED uncle (case 1): recolour parent and uncle BLACK, the grandparent RED,
    and go on with the grandparent as the node.
  \<^item> RED parent, uncle not RED: if the node is the inner grandchild, rotate at the parent
    (case 2); then rotate at the grandparent and recolour (case 3).
  A RED parent without a grandparent does not occur below a BLACK root; the tree is
  returned as it is.
\<close>

fun insert_fixup :: "frame list \<Rightarrow> tree \<Rightarrow> tree" where
  "insert_fixup [] t = paint Black t"
| "insert_fixup [f] t = plug [f] t"
| "insert_fixup (f # g # fs) t =
     (if frame_color f = Black then plug (f # g # fs) t
      else if root_color (sibling g) = Red then
        insert_fixup fs (case1 f g t)
      else
        (case (g, f) of
           (Left_of _ _ _, Left_of _ _ _) \<Rightarrow> plug fs (case3_left (plug1 g (plug1 f t)))
         | (Left_of _ _ _, Right_of _ _ _) \<Rightarrow>
             plug fs (case3_left (plug1 g (rotate_left (plug1 f t))))
         | (Right_of _ _ _, Right_of _ _ _) \<Rightarrow> plug fs (case3_right (plug1 g (plug1 f t)))
         | (Right_of _ _ _, Left_of _ _ _) \<Rightarrow>
             plug fs (case3_right (plug1 g (rotate_right (plug1 f t))))))"

text \<open>The position of the first occurrence of an element in a list of visits.\<close>

fun visit_pos :: "addr list \<Rightarrow> addr \<Rightarrow> nat" where
  "visit_pos [] x = 0"
| "visit_pos (y # ys) x = (if x = y then 0 else Suc (visit_pos ys x))"

text \<open>The node the descent of \<^verbatim>\<open>ph_left_deepest_node\<close> ends at, on the tree.\<close>

fun left_deepest :: "tree \<Rightarrow> addr" where
  "left_deepest Leaf = 0"
| "left_deepest (Node l a c r) =
     (if l \<noteq> Leaf then left_deepest l else if r \<noteq> Leaf then left_deepest r else a)"

subsection \<open>Erase and erase fixup\<close>

text \<open>Modelled from the spec: \<^verbatim>\<open>__ph_erase_augmented\<close> and \<^verbatim>\<open>____ph_erase_color\<close> are not
  under src/; \<^verbatim>\<open>ph_erase\<close>, which is, only calls them, with the callbacks of
  \<^verbatim>\<open>dummy_callbacks\<close> (phtree.c:167-175), which do nothing. The two functions are modelled
  on the tree a state represents, from section 4.3 of the specification. What the specification leaves open is settled as follows: a promoted
  child takes the colour of the node it replaces (BLACK, below the successor), and the
  node handed to the fixup is the parent of the removed position, or null when the removed
  node was RED, had a child, or was the root.\<close>

text \<open>The callbacks erase makes, in order: \<^verbatim>\<open>copy(old, new)\<close> and \<^verbatim>\<open>propagate(node, stop)\<close>.\<close>

datatype ph_call = Copy addr addr | Propagate addr addr

text \<open>The position of the node \<open>n\<close>: its ancestors and the subtree it is the root of.\<close>

fun locate :: "addr \<Rightarrow> frame list \<Rightarrow> tree \<Rightarrow> (frame list \<times> tree) option" where
  "locate n fs Leaf = None"
| "locate n fs (Node l a c r) =
     (if a = n then Some (fs, Node l a c r)
      else case locate n (Left_of a c r # fs) l of
             Some z \<Rightarrow> Some z
           | None \<Rightarrow> locate n (Right_of l a c # fs) r)"

text \<open>The leftmost node of a subtree, with the ancestors passed on the way down.\<close>

fun leftmost :: "frame list \<Rightarrow> tree \<Rightarrow> frame list \<times> tree" where
  "leftmost fs (Node (Node ll la lc lr) a c r) = leftmost (Left_of a c r # fs) (Node ll la lc lr)"
| "leftmost fs t = (fs, t)"

text \<open>Splicing the node out. The result is the position that lost a node, the subtree now
  hanging there, the node to rebalance from (null for none) and the callbacks made. With
  two children the in-order successor \<open>s\<close> takes over the position, the left subtree and
  the colour of the node, and the position that loses a node is the one \<open>s\<close> had.\<close>

definition erase_augmented ::
  "addr \<Rightarrow> tree \<Rightarrow> (frame list \<times> tree \<times> addr \<times> ph_call list) option" where
  "erase_augmented node T =
     (case locate node [] T of
        None \<Rightarrow> None
      | Some (fs, Leaf) \<Rightarrow> None
      | Some (fs, Node l a c r) \<Rightarrow>
          if l = Leaf \<or> r = Leaf then
            (let child = (if l = Leaf then r else l);
                 parent = hole_parent 0 fs
             in if child \<noteq> Leaf then Some (fs, paint c child, 0, [Propagate parent 0])
                else Some (fs, Leaf, if c = Black then parent else 0, [Propagate parent 0]))
          else
            (case leftmost [] r of
               (gs, Leaf) \<Rightarrow> None
             | (gs, Node sl s sc child2) \<Rightarrow>
                 (let hole = gs @ Right_of l s c # fs;
                      parent = hole_parent 0 hole
                  in if child2 \<noteq> Leaf
                     then Some (hole, paint Black child2, 0, [Copy a s, Propagate parent s])
                     else Some (hole, Leaf, if sc = Black then parent else 0,
                                [Copy a s, Propagate parent s]))))"

text \<open>The fixup at a parent \<open>p\<close> of colour \<open>pc\<close> whose subtree \<open>x\<close> is one BLACK node short and
  whose other child, the sibling, is BLACK. Far nephew RED: rotate at the parent, terminal.
  Near nephew RED: rotate at the sibling, then at the parent. Both nephews BLACK: the
  sibling becomes RED, the parent BLACK, and the walk goes on upward if the parent was
  BLACK already. The second component tells whether it goes on.\<close>

fun erase_black_sibling_L :: "tree \<Rightarrow> addr \<Rightarrow> color \<Rightarrow> tree \<Rightarrow> tree \<times> bool" where
  "erase_black_sibling_L x p pc (Node sl s sc sr) =
     (if root_color sr = Red then (Node (Node x p Black sl) s pc (paint Black sr), False)
      else case sl of
             Node a n Red b \<Rightarrow> (Node (Node x p Black a) n pc (Node b s Black sr), False)
           | _ \<Rightarrow> (Node x p Black (Node sl s Red sr), pc = Black))"
| "erase_black_sibling_L x p pc Leaf = (Node x p pc Leaf, False)"

fun erase_black_sibling_R :: "tree \<Rightarrow> addr \<Rightarrow> color \<Rightarrow> tree \<Rightarrow> tree \<times> bool" where
  "erase_black_sibling_R x p pc (Node sl s sc sr) =
     (if root_color sl = Red then (Node (paint Black sl) s pc (Node sr p Black x), False)
      else case sr of
             Node a n Red b \<Rightarrow> (Node (Node sl s Black a) n pc (Node b p Black x), False)
           | _ \<Rightarrow> (Node (Node sl s Red sr) p Black x, pc = Black))"
| "erase_black_sibling_R x p pc Leaf = (Node Leaf p pc x, False)"

text \<open>The walk up from the deficiency point. A RED sibling is first rotated above the
  parent, which becomes RED and gets a BLACK sibling. The walk ends at the root.\<close>

fun erase_color :: "frame list \<Rightarrow> tree \<Rightarrow> tree" where
  "erase_color [] x = x"
| "erase_color (Left_of p pc s # fs) x =
     (case s of
        Node sl sa Red sr \<Rightarrow> plug fs (Node (fst (erase_black_sibling_L x p Red sl)) sa pc sr)
      | _ \<Rightarrow> (case erase_black_sibling_L x p pc s of
                (sub, again) \<Rightarrow> if again then erase_color fs sub else plug fs sub))"
| "erase_color (Right_of s p pc # fs) x =
     (case s of
        Node sl sa Red sr \<Rightarrow> plug fs (Node sl sa pc (fst (erase_black_sibling_R x p Red sr)))
      | _ \<Rightarrow> (case erase_black_sibling_R x p pc s of
                (sub, again) \<Rightarrow> if again then erase_color fs sub else plug fs sub))"

text \<open>\<^verbatim>\<open>ph_erase\<close> (phtree.c:183-190), on the tree: splice, then fix up if a node to
  rebalance from is returned. \<open>None\<close> when the node is not in the tree.\<close>

definition ph_erase :: "addr \<Rightarrow> tree \<Rightarrow> tree option" where
  "ph_erase node T =
     (case erase_augmented node T of
        None \<Rightarrow> None
      | Some (fs, x, rebalance, calls) \<Rightarrow>
          Some (if rebalance \<noteq> 0 then erase_color fs x else plug fs x))"

text \<open>The siblings along a position all have the black height \<open>k\<close> asks for: the tree is
  balanced once a balanced subtree of black height \<open>k\<close> hangs at the position.\<close>

fun hole_balanced :: "frame list \<Rightarrow> nat \<Rightarrow> bool" where
  "hole_balanced [] k = True"
| "hole_balanced (f # fs) k =
     (black_balanced (sibling f) \<and> black_height (sibling f) = k \<and>
      hole_balanced fs (k + (if frame_color f = Black then 1 else 0)))"

text \<open>The nodes before and after a position, in order.\<close>

fun ctx_before :: "frame list \<Rightarrow> addr list" where
  "ctx_before [] = []"
| "ctx_before (Left_of a c r # fs) = ctx_before fs"
| "ctx_before (Right_of l a c # fs) = ctx_before fs @ inorder l @ [a]"

fun ctx_after :: "frame list \<Rightarrow> addr list" where
  "ctx_after [] = []"
| "ctx_after (Left_of a c r # fs) = a # inorder r @ ctx_after fs"
| "ctx_after (Right_of l a c # fs) = ctx_after fs"

text \<open>The tree \<open>t\<close> has the invariants and the nodes of \<open>plug fs x\<close>, in the same order.\<close>

definition erased_ok :: "frame list \<Rightarrow> tree \<Rightarrow> tree \<Rightarrow> bool" where
  "erased_ok fs x t = (no_red_red t \<and> black_balanced t \<and> root_color t = Black \<and>
                       inorder t = inorder (plug fs x))"


subsection \<open>Sequences of insertions and erasures\<close>

text \<open>The trees that a finite sequence of valid insertions and erasures leads to from the
  empty tree. An insertion starts from a state in which the caller has linked the node as
  a RED leaf at a position \<open>fs\<close> of the tree so far, runs \<^verbatim>\<open>ph_insert_color\<close>, and leads to the
  tree the state then holds. An erasure is \<^verbatim>\<open>ph_erase\<close> of a node of the tree.\<close>

inductive ph_built :: "tree \<Rightarrow> bool" where
  built_empty: "ph_built Leaf"
| built_insert:
    "ph_built (plug fs Leaf) \<Longrightarrow> ph_tree s (plug fs (Node Leaf node Red Leaf)) \<Longrightarrow>
     ph_insert_color s node = Some s' \<Longrightarrow> ph_tree s' t' \<Longrightarrow> ph_built t'"
| built_erase:
    "ph_built t \<Longrightarrow> ph_erase node t = Some t' \<Longrightarrow> ph_built t'"

subsection \<open>Example states\<close>

text \<open>An unlinked node whose parent field refers to the node itself.\<close>

definition empty_node :: "addr \<Rightarrow> ph_node" where
  "empty_node a = \<lparr>ph_right = 0, ph_left = 0, ph_parent_color = a\<rparr>"

text \<open>A tree of the single BLACK node at address 8; the node at 16 is unlinked.\<close>

definition single_state :: ph_state where
  "single_state =
     \<lparr>ph_root = 8,
      ph_mem = (\<lambda>a. empty_node a)(8 := \<lparr>ph_right = 0, ph_left = 0, ph_parent_color = 1\<rparr>)\<rparr>"

text \<open>A tree of five nodes: the BLACK root 32, its BLACK children 16 and 40, and the RED
  children 8 and 24 of 16. The node at 48 is unlinked.\<close>

definition five_tree :: tree where
  "five_tree =
     Node (Node (Node Leaf 8 Red Leaf) 16 Black (Node Leaf 24 Red Leaf)) 32 Black
          (Node Leaf 40 Black Leaf)"

definition five_state :: ph_state where
  "five_state =
     \<lparr>ph_root = 32,
      ph_mem = (\<lambda>a. empty_node a)
        (32 := \<lparr>ph_right = 40, ph_left = 16, ph_parent_color = 1\<rparr>,
         16 := \<lparr>ph_right = 24, ph_left = 8, ph_parent_color = 33\<rparr>,
         40 := \<lparr>ph_right = 0, ph_left = 0, ph_parent_color = 33\<rparr>,
         8 := \<lparr>ph_right = 0, ph_left = 0, ph_parent_color = 16\<rparr>,
         24 := \<lparr>ph_right = 0, ph_left = 0, ph_parent_color = 16\<rparr>)\<rparr>"

text \<open>The BLACK root 8 with the RED right child 16, and the node 24 linked as a RED leaf
  to the right of 16; the position of 24, as its ancestors.\<close>

definition chain_ctx :: "frame list" where
  "chain_ctx = [Right_of Leaf 16 Red, Right_of Leaf 8 Black]"

definition chain_state :: ph_state where
  "chain_state =
     \<lparr>ph_root = 8,
      ph_mem = (\<lambda>a. empty_node a)
        (8 := \<lparr>ph_right = 16, ph_left = 0, ph_parent_color = 1\<rparr>,
         16 := \<lparr>ph_right = 24, ph_left = 0, ph_parent_color = 8\<rparr>,
         24 := \<lparr>ph_right = 0, ph_left = 0, ph_parent_color = 16\<rparr>)\<rparr>"

text \<open>The node 8 linked as a RED leaf into the empty tree, and the node 16 linked as a RED
  leaf to the right of the BLACK root 8.\<close>

definition root_linked_state :: ph_state where
  "root_linked_state =
     \<lparr>ph_root = 8,
      ph_mem = (\<lambda>a. empty_node a)(8 := \<lparr>ph_right = 0, ph_left = 0, ph_parent_color = 0\<rparr>)\<rparr>"

definition pair_state :: ph_state where
  "pair_state =
     \<lparr>ph_root = 8,
      ph_mem = (\<lambda>a. empty_node a)
        (8 := \<lparr>ph_right = 16, ph_left = 0, ph_parent_color = 1\<rparr>,
         16 := \<lparr>ph_right = 0, ph_left = 0, ph_parent_color = 8\<rparr>)\<rparr>"

text \<open>An empty tree (\<^verbatim>\<open>PH_ROOT\<close>) over zero-initialised memory, and over memory whose nodes are
  all in the empty state.\<close>

definition zero_node :: ph_node where
  "zero_node = \<lparr>ph_right = 0, ph_left = 0, ph_parent_color = 0\<rparr>"

definition fresh_state :: ph_state where
  "fresh_state = \<lparr>ph_root = 0, ph_mem = (\<lambda>a. zero_node)\<rparr>"

definition unlinked_state :: ph_state where
  "unlinked_state = \<lparr>ph_root = 0, ph_mem = (\<lambda>a. empty_node a)\<rparr>"

text \<open>Two insertions into the empty tree: the node 8 as the root, then the node 16 as the
  right child of 8; and the state they leave.\<close>

definition two_inserts :: "ph_state option" where
  "two_inserts = Option.bind (ph_link_and_insert fresh_state 8 0 ROOT_LINK)
     (\<lambda>s. ph_link_and_insert s 16 8 (RIGHT_LINK 8))"

definition unbalanced_state :: ph_state where
  "unbalanced_state =
     \<lparr>ph_root = 8,
      ph_mem = (\<lambda>a. zero_node)
        (8 := \<lparr>ph_right = 16, ph_left = 0, ph_parent_color = 1\<rparr>,
         16 := \<lparr>ph_right = 0, ph_left = 0, ph_parent_color = 1\<rparr>)\<rparr>"

section \<open>Linking\<close>

lemma ph_link_node_parent_color:
  "ph_parent_color (ph_mem (ph_link_node s node parent link) node) = ph_parent_color (ph_mem s node)"
  by (cases link) (simp_all add: ph_link_node_def)

text \<open>
  C3. Linking the unlinked node 16 as the right child of the BLACK root 8 clears the node's
  child links and stores the node in the slot, but the parent and colour field of the node is
  not written: afterwards the node's parent reference is still the node itself, not the
  parent handed to \<^verbatim>\<open>ph_link_node\<close>.
\<close>

theorem ph_link_node_leaves_parent:
  "ph_right (ph_mem (ph_link_node single_state 16 8 (RIGHT_LINK 8)) 8) = 16 \<and>
   ph_left (ph_mem (ph_link_node single_state 16 8 (RIGHT_LINK 8)) 16) = 0 \<and>
   ph_right (ph_mem (ph_link_node single_state 16 8 (RIGHT_LINK 8)) 16) = 0 \<and>
   ph_parent (ph_mem (ph_link_node single_state 16 8 (RIGHT_LINK 8))) 16 = 16 \<and>
   ph_parent (ph_mem (ph_link_node single_state 16 8 (RIGHT_LINK 8))) 16 \<noteq> 8"
  by (simp add: ph_link_node_def single_state_def empty_node_def ph_parent_def)

section \<open>Traversal from an unlinked node\<close>

text \<open>
  C10. On a node in the empty state (its parent field refers to the node itself) both
  \<^verbatim>\<open>ph_next\<close> and \<^verbatim>\<open>ph_prev\<close> return, and the result is \<^verbatim>\<open>NULL\<close>.
\<close>

theorem ph_next_prev_empty_node:
  "PH_EMPTY_NODE h node \<Longrightarrow> ph_next h node = Some 0 \<and> ph_prev h node = Some 0"
  by (simp add: ph_next_def ph_prev_def)

theorem ph_next_prev_empty_node_witness:
  "PH_EMPTY_NODE (ph_mem single_state) 16 \<and>
   ph_next (ph_mem single_state) 16 = Some 0 \<and> ph_prev (ph_mem single_state) 16 = Some 0"
  using ph_next_prev_empty_node [of "ph_mem single_state" 16]
  by (simp add: PH_EMPTY_NODE_def single_state_def empty_node_def)

section \<open>Trees in memory\<close>

lemma aligned_low0: "ph_aligned a \<Longrightarrow> \<not> bit a 0"
proof
  assume a: "ph_aligned a" and b: "bit a 0"
  have "bit (a AND 7) 0" using b by (simp add: bit_and_iff)
  with a show False by (simp add: ph_aligned_def)
qed

lemma aligned_zero [simp]: "ph_aligned 0"
  by (simp add: ph_aligned_def)

lemma unpack_parent: "ph_aligned a \<Longrightarrow> (a OR color_bit c) AND NOT 1 = a"
  by (cases c; rule bit_eqI)
     (auto simp: ph_RED_def ph_BLACK_def bit_and_iff bit_or_iff bit_not_iff bit_1_iff
           dest: aligned_low0 intro!: gr0I)

lemma unpack_color: "ph_aligned a \<Longrightarrow> (a OR color_bit c) AND 1 = color_bit c"
  by (cases c; rule bit_eqI)
     (auto simp: ph_RED_def ph_BLACK_def bit_and_iff bit_or_iff bit_not_iff bit_1_iff
           dest: aligned_low0 intro!: gr0I)

lemma color_bit_inject [simp]: "color_bit c = color_bit d \<longleftrightarrow> c = d"
  by (cases c; cases d) (simp_all add: ph_RED_def ph_BLACK_def)

lemma packed_not_self: "ph_aligned a \<Longrightarrow> ph_aligned p \<Longrightarrow> p \<noteq> a \<Longrightarrow> p OR color_bit c \<noteq> a"
proof
  assume a: "ph_aligned a" "ph_aligned p" "p \<noteq> a" and e: "p OR color_bit c = a"
  have "(p OR color_bit c) AND NOT 1 = p" using a by (simp only: unpack_parent)
  moreover have "a AND NOT 1 = a" using unpack_parent[of a Red] a by (simp add: ph_RED_def)
  ultimately show False using e a by simp
qed

lemma ph_parent_packed:
  "ph_parent_color (h n) = p OR color_bit c \<Longrightarrow> ph_aligned p \<Longrightarrow> ph_parent h n = p"
  by (simp only: ph_parent_def unpack_parent)

lemma ph_color_packed:
  "ph_parent_color (h n) = p OR color_bit c \<Longrightarrow> ph_aligned p \<Longrightarrow> ph_color h n = color_bit c"
  by (simp only: ph_color_def unpack_color)

lemma tree_at_nonnull: "tree_at h par t \<Longrightarrow> 0 \<notin> nodes t"
  by (induction t arbitrary: par) auto

lemma tree_at_aligned: "tree_at h par t \<Longrightarrow> a \<in> nodes t \<Longrightarrow> ph_aligned a"
  by (induction t arbitrary: par) auto

lemma root_of_in_nodes: "t \<noteq> Leaf \<Longrightarrow> root_of t \<in> nodes t"
  by (cases t) auto

lemma root_of_zero: "tree_at h par t \<Longrightarrow> root_of t = 0 \<longleftrightarrow> t = Leaf"
  by (cases t) auto

lemma set_inorder: "set (inorder t) = nodes t"
  by (induction t) auto

lemma set_postorder: "set (postorder t) = nodes t"
  by (induction t) auto

lemma distinct_inorder: "tree_at h par t \<Longrightarrow> distinct (inorder t)"
  by (induction t arbitrary: par) (auto simp: set_inorder)

lemma distinct_postorder: "tree_at h par t \<Longrightarrow> distinct (postorder t)"
  by (induction t arbitrary: par) (auto simp: set_postorder)

lemma inorder_Nil: "inorder t = [] \<longleftrightarrow> t = Leaf"
  by (cases t) auto

lemma parent_of_root:
  "tree_at h par t \<Longrightarrow> t \<noteq> Leaf \<Longrightarrow> ph_aligned par \<Longrightarrow> ph_parent h (root_of t) = par"
  by (cases t) (auto simp: ph_parent_packed)

lemma color_of_root:
  "tree_at h par (Node l a c r) \<Longrightarrow> ph_aligned par \<Longrightarrow> ph_color h a = color_bit c"
  by (auto simp: ph_color_packed)

lemma root_not_empty:
  "tree_at h par t \<Longrightarrow> t \<noteq> Leaf \<Longrightarrow> ph_aligned par \<Longrightarrow> par \<notin> nodes t \<Longrightarrow>
   \<not> PH_EMPTY_NODE h (root_of t)"
  by (cases t) (auto simp: PH_EMPTY_NODE_def packed_not_self)

lemma descend_left_tree:
  "tree_at h par t \<Longrightarrow> t \<noteq> Leaf \<Longrightarrow> ph_descend_left h (root_of t) = Some (hd (inorder t))"
proof (induction t arbitrary: par)
  case Leaf
  then show ?case by simp
next
  case (Node l a c r)
  show ?case
  proof (cases "l = Leaf")
    case True
    with Node.prems show ?thesis
      by (subst ph_descend_left.simps) simp
  next
    case False
    with Node.prems have "root_of l \<noteq> 0" "tree_at h a l"
      by (auto simp: root_of_zero)
    with Node.prems False Node.IH(1)[of a] show ?thesis
      by (subst ph_descend_left.simps) (simp add: inorder_Nil)
  qed
qed

lemma next_walk_tree:
  "tree_at h par t \<Longrightarrow> t \<noteq> Leaf \<Longrightarrow> ph_aligned par \<Longrightarrow> par \<notin> nodes t \<Longrightarrow>
   ph_next_climb h (root_of t) = Some e \<Longrightarrow> ph_next_walk h e = Some rest \<Longrightarrow>
   ph_next_walk h (hd (inorder t)) = Some (inorder t @ rest)"
proof (induction t arbitrary: par e rest)
  case Leaf
  then show ?case by simp
next
  case (Node l a c r)
  from Node.prems have a: "a \<noteq> 0" "ph_aligned a" "ph_left (h a) = root_of l"
    "ph_right (h a) = root_of r" "tree_at h a l" "tree_at h a r" "a \<notin> nodes l" "a \<notin> nodes r"
    "nodes l \<inter> nodes r = {}" "par \<noteq> a"
    by auto
  from Node.prems have pa: "ph_parent h a = par"
    using parent_of_root[of h par "Node l a c r"] by simp
  from Node.prems have ne: "\<not> PH_EMPTY_NODE h a"
    using root_not_empty[of h par "Node l a c r"] by simp
  have climb_a: "ph_next_climb h a = Some e"
    using Node.prems(5) by simp
  have next_a: "ph_next_walk h a = Some (a # inorder r @ rest)"
  proof (cases "r = Leaf")
    case True
    then have "ph_next h a = Some e"
      using ne a climb_a by (simp add: ph_next_def)
    then show ?thesis using True a Node.prems(6)
      by (subst ph_next_walk.simps) simp
  next
    case False
    then have r0: "root_of r \<noteq> 0" using a by (simp add: root_of_zero)
    have "ph_next h a = Some (hd (inorder r))"
      using ne a r0 descend_left_tree[of h a r] False by (simp add: ph_next_def)
    moreover have "ph_parent h (root_of r) = a"
      using parent_of_root[of h a r] a False by simp
    then have "ph_next_climb h (root_of r) = Some e"
      using a climb_a by (subst ph_next_climb.simps) simp
    then have "ph_next_walk h (hd (inorder r)) = Some (inorder r @ rest)"
      using Node.IH(2)[of a e rest] a False Node.prems(6) by simp
    ultimately show ?thesis using a
      by (subst ph_next_walk.simps) simp
  qed
  show ?case
  proof (cases "l = Leaf")
    case True
    then show ?thesis using next_a by simp
  next
    case False
    then have l0: "root_of l \<noteq> 0" "root_of l \<in> nodes l"
      using a by (simp_all add: root_of_zero root_of_in_nodes)
    have "root_of l \<noteq> root_of r"
    proof (cases "r = Leaf")
      case True then show ?thesis using l0 by simp
    next
      case False
      then have "root_of r \<in> nodes r" by (simp add: root_of_in_nodes)
      then show ?thesis using l0 a by auto
    qed
    moreover have "ph_parent h (root_of l) = a"
      using parent_of_root[of h a l] a False by simp
    ultimately have "ph_next_climb h (root_of l) = Some a"
      using a by (subst ph_next_climb.simps) simp
    then have "ph_next_walk h (hd (inorder l)) = Some (inorder l @ a # inorder r @ rest)"
      using Node.IH(1)[of a a "a # inorder r @ rest"] a False next_a by simp
    then show ?thesis using False by (simp add: inorder_Nil)
  qed
qed


lemma last_inorder: "t \<noteq> Leaf \<Longrightarrow> last (inorder (Node l a c r)) = (if r = Leaf then a else last (inorder r))"
  by (simp add: inorder_Nil)

lemma descend_right_tree:
  "tree_at h par t \<Longrightarrow> t \<noteq> Leaf \<Longrightarrow> ph_descend_right h (root_of t) = Some (last (inorder t))"
proof (induction t arbitrary: par)
  case Leaf
  then show ?case by simp
next
  case (Node l a c r)
  show ?case
  proof (cases "r = Leaf")
    case True
    with Node.prems show ?thesis
      by (subst ph_descend_right.simps) simp
  next
    case False
    with Node.prems have "root_of r \<noteq> 0" "tree_at h a r"
      by (auto simp: root_of_zero)
    with Node.prems False Node.IH(2)[of a] show ?thesis
      by (subst ph_descend_right.simps) (simp add: inorder_Nil)
  qed
qed

lemma roots_differ:
  "tree_at h par (Node l a c r) \<Longrightarrow> l \<noteq> Leaf \<or> r \<noteq> Leaf \<Longrightarrow> root_of l \<noteq> root_of r"
proof -
  assume t: "tree_at h par (Node l a c r)" and n: "l \<noteq> Leaf \<or> r \<noteq> Leaf"
  show ?thesis
  proof (cases "l = Leaf")
    case True
    with n t show ?thesis by (auto simp: root_of_zero)
  next
    case False
    then have l: "root_of l \<in> nodes l" "root_of l \<noteq> 0"
      using t by (auto simp: root_of_in_nodes root_of_zero)
    show ?thesis
    proof (cases "r = Leaf")
      case True then show ?thesis using l by simp
    next
      case False
      then have "root_of r \<in> nodes r" by (simp add: root_of_in_nodes)
      then show ?thesis using l t by auto
    qed
  qed
qed

lemma prev_walk_tree:
  "tree_at h par t \<Longrightarrow> t \<noteq> Leaf \<Longrightarrow> ph_aligned par \<Longrightarrow> par \<notin> nodes t \<Longrightarrow>
   ph_prev_climb h (root_of t) = Some e \<Longrightarrow> ph_prev_walk h e = Some rest \<Longrightarrow>
   ph_prev_walk h (last (inorder t)) = Some (rev (inorder t) @ rest)"
proof (induction t arbitrary: par e rest)
  case Leaf
  then show ?case by simp
next
  case (Node l a c r)
  from Node.prems have a: "a \<noteq> 0" "ph_aligned a" "ph_left (h a) = root_of l"
    "ph_right (h a) = root_of r" "tree_at h a l" "tree_at h a r" "a \<notin> nodes l" "a \<notin> nodes r"
    "nodes l \<inter> nodes r = {}" "par \<noteq> a"
    by auto
  from Node.prems have pa: "ph_parent h a = par"
    using parent_of_root[of h par "Node l a c r"] by simp
  from Node.prems have ne: "\<not> PH_EMPTY_NODE h a"
    using root_not_empty[of h par "Node l a c r"] by simp
  have climb_a: "ph_prev_climb h a = Some e"
    using Node.prems(5) by simp
  have prev_a: "ph_prev_walk h a = Some (a # rev (inorder l) @ rest)"
  proof (cases "l = Leaf")
    case True
    then have "ph_prev h a = Some e"
      using ne a climb_a by (simp add: ph_prev_def)
    then show ?thesis using True a Node.prems(6)
      by (subst ph_prev_walk.simps) simp
  next
    case False
    then have l0: "root_of l \<noteq> 0" using a by (simp add: root_of_zero)
    have "ph_prev h a = Some (last (inorder l))"
      using ne a l0 descend_right_tree[of h a l] False by (simp add: ph_prev_def)
    moreover have "ph_parent h (root_of l) = a"
      using parent_of_root[of h a l] a False by simp
    then have "ph_prev_climb h (root_of l) = Some e"
      using a climb_a by (subst ph_prev_climb.simps) simp
    then have "ph_prev_walk h (last (inorder l)) = Some (rev (inorder l) @ rest)"
      using Node.IH(1)[of a e rest] a False Node.prems(6) by simp
    ultimately show ?thesis using a
      by (subst ph_prev_walk.simps) simp
  qed
  show ?case
  proof (cases "r = Leaf")
    case True
    then show ?thesis using prev_a by simp
  next
    case False
    then have r0: "root_of r \<noteq> 0"
      using a by (simp_all add: root_of_zero)
    have "root_of l \<noteq> root_of r"
      using roots_differ[OF Node.prems(1)] False by simp
    moreover have "ph_parent h (root_of r) = a"
      using parent_of_root[of h a r] a False by simp
    ultimately have "ph_prev_climb h (root_of r) = Some a"
      using a by (subst ph_prev_climb.simps) auto
    then have "ph_prev_walk h (last (inorder r)) = Some (rev (inorder r) @ a # rev (inorder l) @ rest)"
      using Node.IH(2)[of a a "a # rev (inorder l) @ rest"] a False prev_a by simp
    then show ?thesis using False by (simp add: inorder_Nil)
  qed
qed

lemma walk_null: "ph_next_walk h 0 = Some []" "ph_prev_walk h 0 = Some []"
  "ph_postorder_walk h 0 = Some []"
  by (subst ph_next_walk.simps, simp) (subst ph_prev_walk.simps, simp,
      subst ph_postorder_walk.simps, simp)

lemma climb_top:
  "tree_at h 0 t \<Longrightarrow> t \<noteq> Leaf \<Longrightarrow> ph_next_climb h (root_of t) = Some 0"
  using parent_of_root[of h 0 t] by (subst ph_next_climb.simps) simp

lemma climb_top_prev:
  "tree_at h 0 t \<Longrightarrow> t \<noteq> Leaf \<Longrightarrow> ph_prev_climb h (root_of t) = Some 0"
  using parent_of_root[of h 0 t] by (subst ph_prev_climb.simps) simp

text \<open>
  C6. On a state that holds a tree, the iteration of \<^verbatim>\<open>ph_next\<close> from \<^verbatim>\<open>ph_first\<close> returns and
  visits the nodes in in-order (left subtree, node, right subtree: the ascending order of
  the caller's linking discipline); every linked node is visited, and exactly once. The
  iteration of \<^verbatim>\<open>ph_prev\<close> from \<^verbatim>\<open>ph_last\<close> returns the same nodes in the reverse order.
\<close>

theorem ph_inorder_iteration:
  assumes "ph_tree s t"
  shows "ph_forward s = Some (inorder t) \<and> ph_backward s = Some (rev (inorder t)) \<and>
         distinct (inorder t) \<and> set (inorder t) = nodes t"
proof (cases "t = Leaf")
  case True
  with assms show ?thesis
    by (simp add: ph_tree_def ph_forward_def ph_backward_def ph_first_def ph_last_def walk_null)
next
  case False
  from assms have t: "tree_at (ph_mem s) 0 t" and r: "ph_root s = root_of t"
    by (simp_all add: ph_tree_def)
  have r0: "ph_root s \<noteq> 0" using r t False by (simp add: root_of_zero)
  have z: "0 \<notin> nodes t" using t by (rule tree_at_nonnull)
  have "ph_next_walk (ph_mem s) (hd (inorder t)) = Some (inorder t @ [])"
    using t False z by (intro next_walk_tree[where par=0 and e=0]) (simp_all add: climb_top walk_null)
  then have f: "ph_forward s = Some (inorder t)"
    using r0 r descend_left_tree[OF t False] by (simp add: ph_forward_def ph_first_def)
  have "ph_prev_walk (ph_mem s) (last (inorder t)) = Some (rev (inorder t) @ [])"
    using t False z by (intro prev_walk_tree[where par=0 and e=0]) (simp_all add: climb_top_prev walk_null)
  then have b: "ph_backward s = Some (rev (inorder t))"
    using r0 r descend_right_tree[OF t False] by (simp add: ph_backward_def ph_last_def)
  show ?thesis using f b distinct_inorder[OF t] by (simp add: set_inorder)
qed


lemma left_deepest_in: "t \<noteq> Leaf \<Longrightarrow> left_deepest t \<in> nodes t"
  by (induction t) auto

lemma left_deepest_tree:
  "tree_at h par t \<Longrightarrow> t \<noteq> Leaf \<Longrightarrow>
   ph_left_deepest_node h (root_of t) = Some (left_deepest t)"
proof (induction t arbitrary: par)
  case Leaf
  then show ?case by simp
next
  case (Node l a c r)
  from Node.prems have a: "ph_left (h a) = root_of l" "ph_right (h a) = root_of r"
    "tree_at h a l" "tree_at h a r"
    by auto
  show ?case
  proof (cases "l = Leaf")
    case False
    then have "root_of l \<noteq> 0" using a by (simp add: root_of_zero)
    then show ?thesis using False a Node.IH(1)[of a]
      by (subst ph_left_deepest_node.simps) simp
  next
    case True
    show ?thesis
    proof (cases "r = Leaf")
      case False
      then have "root_of r \<noteq> 0" using a by (simp add: root_of_zero)
      then show ?thesis using False True a Node.IH(2)[of a]
        by (subst ph_left_deepest_node.simps) simp
    next
      case r: True
      then show ?thesis using True a
        by (subst ph_left_deepest_node.simps) simp
    qed
  qed
qed

lemma left_deepest_leaf:
  "tree_at h par t \<Longrightarrow> t \<noteq> Leaf \<Longrightarrow>
   ph_left (h (left_deepest t)) = 0 \<and> ph_right (h (left_deepest t)) = 0"
  by (induction t arbitrary: par) auto

lemma postorder_walk_tree:
  "tree_at h par t \<Longrightarrow> t \<noteq> Leaf \<Longrightarrow> ph_aligned par \<Longrightarrow> par \<notin> nodes t \<Longrightarrow>
   ph_next_postorder h (root_of t) = Some e \<Longrightarrow> ph_postorder_walk h e = Some rest \<Longrightarrow>
   ph_postorder_walk h (left_deepest t) = Some (postorder t @ rest)"
proof (induction t arbitrary: par e rest)
  case Leaf
  then show ?case by simp
next
  case (Node l a c r)
  from Node.prems have a: "a \<noteq> 0" "ph_aligned a" "ph_left (h a) = root_of l"
    "ph_right (h a) = root_of r" "tree_at h a l" "tree_at h a r" "a \<notin> nodes l" "a \<notin> nodes r"
    "nodes l \<inter> nodes r = {}" "par \<noteq> a"
    by auto
  have walk_a: "ph_postorder_walk h a = Some (a # rest)"
    using Node.prems(5,6) a by (subst ph_postorder_walk.simps) simp
  define w where "w = (if r = Leaf then a else left_deepest r)"
  have walk_w: "ph_postorder_walk h w = Some (postorder r @ a # rest)"
  proof (cases "r = Leaf")
    case True
    then show ?thesis using walk_a by (simp add: w_def)
  next
    case False
    then have r0: "root_of r \<noteq> 0" using a by (simp add: root_of_zero)
    have "root_of l \<noteq> root_of r"
      using roots_differ[OF Node.prems(1)] False by simp
    moreover have "ph_parent h (root_of r) = a"
      using parent_of_root[of h a r] a False by simp
    ultimately have "ph_next_postorder h (root_of r) = Some a"
      using a r0 by (auto simp: ph_next_postorder_def)
    then show ?thesis
      using Node.IH(2)[of a a "a # rest"] a False walk_a by (simp add: w_def)
  qed
  show ?case
  proof (cases "l = Leaf")
    case True
    then show ?thesis using walk_w by (auto simp: w_def)
  next
    case False
    then have l0: "root_of l \<noteq> 0" using a by (simp add: root_of_zero)
    have pl: "ph_parent h (root_of l) = a"
      using parent_of_root[of h a l] a False by simp
    have "ph_next_postorder h (root_of l) = Some w"
    proof (cases "r = Leaf")
      case True
      then show ?thesis using pl a l0 by (simp add: ph_next_postorder_def w_def)
    next
      case r: False
      then have "root_of r \<noteq> 0" using a by (simp add: root_of_zero)
      then show ?thesis using pl a l0 r left_deepest_tree[of h a r]
        by (simp add: ph_next_postorder_def w_def)
    qed
    then show ?thesis
      using Node.IH(1)[of a w "postorder r @ a # rest"] a False walk_w by simp
  qed
qed

lemma visit_pos_less: "visit_pos xs x < length xs \<longleftrightarrow> x \<in> set xs"
  by (induction xs) auto

lemma visit_pos_append:
  "visit_pos (xs @ ys) x = (if x \<in> set xs then visit_pos xs x else length xs + visit_pos ys x)"
  by (induction xs) auto

lemma child_in_nodes:
  "tree_at h par t \<Longrightarrow> a \<in> nodes t \<Longrightarrow> c = ph_left (h a) \<or> c = ph_right (h a) \<Longrightarrow> c \<noteq> 0 \<Longrightarrow>
   c \<in> nodes t \<and> c \<noteq> a"
proof (induction t arbitrary: par)
  case Leaf
  then show ?case by simp
next
  case (Node l b col r)
  show ?case
  proof (cases "a = b")
    case True
    then have "c = root_of l \<or> c = root_of r" using Node.prems by auto
    moreover have "root_of l \<noteq> 0 \<Longrightarrow> root_of l \<in> nodes l" by (cases l) auto
    moreover have "root_of r \<noteq> 0 \<Longrightarrow> root_of r \<in> nodes r" by (cases r) auto
    ultimately show ?thesis using Node.prems True by auto
  next
    case False
    then show ?thesis using Node.prems Node.IH(1)[of b] Node.IH(2)[of b] by auto
  qed
qed

lemma postorder_child_first:
  "tree_at h par t \<Longrightarrow> a \<in> nodes t \<Longrightarrow> c = ph_left (h a) \<or> c = ph_right (h a) \<Longrightarrow> c \<noteq> 0 \<Longrightarrow>
   visit_pos (postorder t) c < visit_pos (postorder t) a"
proof (induction t arbitrary: par)
  case Leaf
  then show ?case by simp
next
  case (Node l b col r)
  from Node.prems have b: "tree_at h b l" "tree_at h b r" "b \<notin> nodes l" "b \<notin> nodes r"
    "nodes l \<inter> nodes r = {}"
    by auto
  have cin: "c \<in> nodes (Node l b col r)" "c \<noteq> a"
    using child_in_nodes[OF Node.prems] by auto
  show ?case
  proof (cases "a = b")
    case True
    then have cset: "c \<in> set (postorder l @ postorder r)"
      using cin by (auto simp: set_postorder)
    have bset: "b \<notin> set (postorder l @ postorder r)"
      using b by (simp add: set_postorder)
    have "visit_pos ((postorder l @ postorder r) @ [b]) c = visit_pos (postorder l @ postorder r) c"
      using cset by (simp only: visit_pos_append if_True)
    moreover have "visit_pos ((postorder l @ postorder r) @ [b]) b = length (postorder l @ postorder r)"
      using bset by (simp only: visit_pos_append if_False) simp
    moreover have "visit_pos (postorder l @ postorder r) c < length (postorder l @ postorder r)"
      using cset by (simp only: visit_pos_less)
    ultimately show ?thesis using True by simp
  next
    case False
    then consider "a \<in> nodes l" | "a \<in> nodes r" using Node.prems by auto
    then show ?thesis
    proof cases
      case 1
      then have ih: "visit_pos (postorder l) c < visit_pos (postorder l) a"
        using Node.IH(1)[of b] b Node.prems by simp
      have "c \<in> nodes l" using child_in_nodes[OF b(1) 1 Node.prems(3,4)] by simp
      then show ?thesis using 1 ih by (simp add: visit_pos_append set_postorder)
    next
      case 2
      then have ih: "visit_pos (postorder r) c < visit_pos (postorder r) a"
        using Node.IH(2)[of b] b Node.prems by simp
      have "c \<in> nodes r" using child_in_nodes[OF b(2) 2 Node.prems(3,4)] by simp
      moreover have "c \<notin> nodes l" "a \<notin> nodes l" using calculation 2 b by auto
      ultimately show ?thesis using 2 ih by (simp add: visit_pos_append set_postorder)
    qed
  qed
qed

text \<open>
  C7. On a state that holds a tree, the postorder walk (\<^verbatim>\<open>ph_first_postorder\<close>, then
  \<^verbatim>\<open>ph_next_postorder\<close> until \<^verbatim>\<open>NULL\<close>) returns and visits every linked node exactly once;
  each child is visited strictly before the node it hangs from; the walk starts at the
  left-deepest node, which has no children.
\<close>

theorem ph_postorder_iteration:
  assumes "ph_tree s t"
  shows "ph_postorder s = Some (postorder t) \<and>
         distinct (postorder t) \<and> set (postorder t) = nodes t \<and>
         (\<forall>a \<in> nodes t. \<forall>c. c \<noteq> 0 \<and> (c = ph_left (ph_mem s a) \<or> c = ph_right (ph_mem s a)) \<longrightarrow>
            visit_pos (postorder t) c < visit_pos (postorder t) a) \<and>
         ph_first_postorder s = Some (left_deepest t) \<and>
         (t \<noteq> Leaf \<longrightarrow>
            ph_left (ph_mem s (left_deepest t)) = 0 \<and> ph_right (ph_mem s (left_deepest t)) = 0)"
proof -
  from assms have t: "tree_at (ph_mem s) 0 t" and r: "ph_root s = root_of t"
    by (simp_all add: ph_tree_def)
  have order: "\<forall>a \<in> nodes t. \<forall>c. c \<noteq> 0 \<and> (c = ph_left (ph_mem s a) \<or> c = ph_right (ph_mem s a)) \<longrightarrow>
            visit_pos (postorder t) c < visit_pos (postorder t) a"
    using postorder_child_first[OF t] by blast
  have dist: "distinct (postorder t)" using t by (rule distinct_postorder)
  show ?thesis
  proof (cases "t = Leaf")
    case True
    then show ?thesis using r
      by (simp add: ph_postorder_def ph_first_postorder_def walk_null)
  next
    case False
    have r0: "ph_root s \<noteq> 0" using r t False by (simp add: root_of_zero)
    have z: "0 \<notin> nodes t" using t by (rule tree_at_nonnull)
    have first: "ph_first_postorder s = Some (left_deepest t)"
      using r0 r left_deepest_tree[OF t False] by (simp add: ph_first_postorder_def)
    have "ph_parent (ph_mem s) (root_of t) = 0"
      using parent_of_root[OF t False] by simp
    then have "ph_next_postorder (ph_mem s) (root_of t) = Some 0"
      by (simp add: ph_next_postorder_def)
    then have "ph_postorder_walk (ph_mem s) (left_deepest t) = Some (postorder t @ [])"
      using t False z by (intro postorder_walk_tree[where par=0 and e=0]) (simp_all add: walk_null)
    then have "ph_postorder s = Some (postorder t)"
      using first by (simp add: ph_postorder_def)
    then show ?thesis
      using first dist order left_deepest_leaf[OF t False] by (simp add: set_postorder)
  qed
qed

lemma five_state_tree: "ph_tree five_state five_tree"
  by (simp add: ph_tree_def five_state_def five_tree_def ph_aligned_def ph_RED_def ph_BLACK_def)

theorem ph_inorder_iteration_witness:
  "ph_tree five_state five_tree \<and>
   ph_forward five_state = Some [8, 16, 24, 32, 40] \<and>
   ph_backward five_state = Some [40, 32, 24, 16, 8]"
  using ph_inorder_iteration [OF five_state_tree] five_state_tree
  by (simp add: five_tree_def)

theorem ph_postorder_iteration_witness:
  "ph_tree five_state five_tree \<and>
   ph_postorder five_state = Some [8, 24, 16, 40, 32] \<and>
   ph_first_postorder five_state = Some 8"
  using ph_postorder_iteration [OF five_state_tree] five_state_tree
  by (simp add: five_tree_def)

section \<open>Replacing a node\<close>

lemma rename_other: "v \<notin> nodes t \<Longrightarrow> rename_node v n t = t"
  by (induction t) auto

lemma nodes_rename: "nodes (rename_node v n t) = (if v \<in> nodes t then insert n (nodes t - {v}) else nodes t)"
  by (induction t) auto

lemma tree_at_frame:
  "tree_at h par t \<Longrightarrow> \<forall>x \<in> nodes t. h' x = h x \<Longrightarrow> tree_at h' par t"
  by (induction t arbitrary: par) auto

lemma tree_at_reparent:
  "tree_at h par t \<Longrightarrow> ph_aligned par \<Longrightarrow> ph_aligned p \<Longrightarrow>
   \<forall>x \<in> nodes t. x \<noteq> root_of t \<longrightarrow> h' x = h x \<Longrightarrow>
   t \<noteq> Leaf \<longrightarrow> h' (root_of t) = (h (root_of t))\<lparr>ph_parent_color := ph_color h (root_of t) OR p\<rparr> \<Longrightarrow>
   tree_at h' p t"
proof (cases t)
  case Leaf
  then show ?thesis by simp
next
  case (Node l a c r)
  assume t: "tree_at h par t" and al: "ph_aligned par" "ph_aligned p"
    and fr: "\<forall>x \<in> nodes t. x \<noteq> root_of t \<longrightarrow> h' x = h x"
    and rt: "t \<noteq> Leaf \<longrightarrow> h' (root_of t) = (h (root_of t))\<lparr>ph_parent_color := ph_color h (root_of t) OR p\<rparr>"
  from t Node have a: "a \<noteq> 0" "ph_aligned a" "ph_left (h a) = root_of l"
    "ph_right (h a) = root_of r" "ph_parent_color (h a) = par OR color_bit c"
    "tree_at h a l" "tree_at h a r" "a \<notin> nodes l" "a \<notin> nodes r" "nodes l \<inter> nodes r = {}"
    by auto
  have col: "ph_color h a = color_bit c" using a al by (simp add: ph_color_packed)
  have ha: "h' a = (h a)\<lparr>ph_parent_color := color_bit c OR p\<rparr>"
    using rt Node col by simp
  have "\<forall>x\<in>nodes l. h' x = h x" using a fr Node by auto
  then have l: "tree_at h' a l" using a(6) by (rule tree_at_frame[rotated])
  have "\<forall>x\<in>nodes r. h' x = h x" using a fr Node by auto
  then have r: "tree_at h' a r" using a(7) by (rule tree_at_frame[rotated])
  have "color_bit c OR p = p OR color_bit c" by (rule or.commute)
  then show ?thesis using Node a ha l r by simp
qed


lemma root_of_rename:
  "v \<noteq> 0 \<Longrightarrow> root_of (rename_node v n t) = (if root_of t = v then n else root_of t)"
  by (cases t) auto

lemma node_facts:
  "tree_at h par t \<Longrightarrow> ph_aligned par \<Longrightarrow> par \<notin> nodes t \<Longrightarrow> v \<in> nodes t \<Longrightarrow>
   \<exists>l c r. tree_at h (ph_parent h v) (Node l v c r) \<and> nodes (Node l v c r) \<subseteq> nodes t \<and>
     ph_parent h v \<notin> nodes (Node l v c r) \<and> ph_aligned (ph_parent h v) \<and>
     (ph_parent h v = par \<and> v = root_of t \<or> ph_parent h v \<in> nodes t \<and> v \<noteq> root_of t)"
proof (induction t arbitrary: par)
  case Leaf
  then show ?case by simp
next
  case (Node l a c r)
  from Node.prems have a: "a \<noteq> 0" "ph_aligned a"
    "tree_at h a l" "tree_at h a r" "a \<notin> nodes l" "a \<notin> nodes r" "nodes l \<inter> nodes r = {}"
    by auto
  show ?case
  proof (cases "v = a")
    case True
    have "ph_parent h a = par" using parent_of_root[OF Node.prems(1)] Node.prems by simp
    then show ?thesis using True Node.prems
      by (intro exI[of _ l] exI[of _ c] exI[of _ r]) simp
  next
    case False
    then consider "v \<in> nodes l" | "v \<in> nodes r" using Node.prems by auto
    then show ?thesis
    proof cases
      case 1
      from Node.IH(1)[OF a(3) a(2) a(5) 1] obtain l' c' r' where
        "tree_at h (ph_parent h v) (Node l' v c' r')" "nodes (Node l' v c' r') \<subseteq> nodes l"
        "ph_parent h v \<notin> nodes (Node l' v c' r')" "ph_aligned (ph_parent h v)"
        "ph_parent h v = a \<and> v = root_of l \<or> ph_parent h v \<in> nodes l \<and> v \<noteq> root_of l"
        by blast
      then show ?thesis using False
        by (intro exI[of _ l'] exI[of _ c'] exI[of _ r']) auto
    next
      case 2
      from Node.IH(2)[OF a(4) a(2) a(6) 2] obtain l' c' r' where
        "tree_at h (ph_parent h v) (Node l' v c' r')" "nodes (Node l' v c' r') \<subseteq> nodes r"
        "ph_parent h v \<notin> nodes (Node l' v c' r')" "ph_aligned (ph_parent h v)"
        "ph_parent h v = a \<and> v = root_of r \<or> ph_parent h v \<in> nodes r \<and> v \<noteq> root_of r"
        by blast
      then show ?thesis using False
        by (intro exI[of _ l'] exI[of _ c'] exI[of _ r']) auto
    qed
  qed
qed

lemma root_in_or_null: "tree_at h par t \<Longrightarrow> root_of t = 0 \<or> root_of t \<in> nodes t"
  by (cases t) auto


lemma replace_tree_at:
  assumes "tree_at h par t" "ph_aligned par" "par \<notin> nodes t" "v \<in> nodes t"
    "n \<notin> nodes t" "n \<noteq> 0" "ph_aligned n" "n \<noteq> par"
    and F1: "\<forall>x \<in> nodes t. x \<noteq> v \<longrightarrow> x \<noteq> ph_left (h v) \<longrightarrow> x \<noteq> ph_right (h v) \<longrightarrow>
               x \<noteq> ph_parent h v \<longrightarrow> h' x = h x"
    and F2: "h' n = h v"
    and F3: "ph_left (h v) \<noteq> 0 \<longrightarrow> h' (ph_left (h v)) =
               (h (ph_left (h v)))\<lparr>ph_parent_color := ph_color h (ph_left (h v)) OR n\<rparr>"
    and F4: "ph_right (h v) \<noteq> 0 \<longrightarrow> h' (ph_right (h v)) =
               (h (ph_right (h v)))\<lparr>ph_parent_color := ph_color h (ph_right (h v)) OR n\<rparr>"
    and F5: "v \<noteq> root_of t \<longrightarrow> h' (ph_parent h v) =
               (if ph_left (h (ph_parent h v)) = v then (h (ph_parent h v))\<lparr>ph_left := n\<rparr>
                else (h (ph_parent h v))\<lparr>ph_right := n\<rparr>)"
  shows "tree_at h' par (rename_node v n t)"
  using assms
proof (induction t arbitrary: par)
  case Leaf
  then show ?case by simp
next
  case (Node l a c r)
  from Node.prems(1) have a: "a \<noteq> 0" "ph_aligned a" "ph_left (h a) = root_of l"
    "ph_right (h a) = root_of r" "ph_parent_color (h a) = par OR color_bit c"
    "tree_at h a l" "tree_at h a r" "a \<notin> nodes l" "a \<notin> nodes r" "nodes l \<inter> nodes r = {}"
    by auto
  have v0: "v \<noteq> 0" using tree_at_nonnull[OF Node.prems(1)] Node.prems(4) by auto
  have z: "0 \<notin> nodes l" "0 \<notin> nodes r"
    using tree_at_nonnull[OF a(6)] tree_at_nonnull[OF a(7)] by auto
  have rl: "root_of l = 0 \<or> root_of l \<in> nodes l" using a(6) by (rule root_in_or_null)
  have rr: "root_of r = 0 \<or> root_of r \<in> nodes r" using a(7) by (rule root_in_or_null)
  have n: "n \<noteq> a" "n \<notin> nodes l" "n \<notin> nodes r" using Node.prems(5) by auto
  have F1': "\<forall>x \<in> nodes (Node l a c r). x \<noteq> v \<longrightarrow> x \<noteq> ph_left (h v) \<longrightarrow> x \<noteq> ph_right (h v) \<longrightarrow>
               x \<noteq> ph_parent h v \<longrightarrow> h' x = h x"
    using Node.prems(9) .
  have use_F1: "\<And>x. x \<in> nodes (Node l a c r) \<Longrightarrow> x \<noteq> v \<Longrightarrow> x \<noteq> ph_left (h v) \<Longrightarrow>
      x \<noteq> ph_right (h v) \<Longrightarrow> x \<noteq> ph_parent h v \<Longrightarrow> h' x = h x"
    using F1' by blast
  show ?case
  proof (cases "v = a")
    case True
    have pv: "ph_parent h v = par"
      using True parent_of_root[OF Node.prems(1)] Node.prems(2) by simp
    have "\<forall>x \<in> nodes l. x \<noteq> root_of l \<longrightarrow> h' x = h x"
    proof (intro ballI impI)
      fix x assume x: "x \<in> nodes l" "x \<noteq> root_of l"
      have "x \<noteq> v" using x True a by auto
      moreover have "x \<noteq> ph_left (h v)" using x True a by auto
      moreover have "x \<noteq> ph_right (h v)" using x True a rr z by auto
      moreover have "x \<noteq> ph_parent h v" using x pv Node.prems(3) by auto
      ultimately show "h' x = h x" using use_F1[of x] x by simp
    qed
    moreover have "l \<noteq> Leaf \<longrightarrow> h' (root_of l) =
        (h (root_of l))\<lparr>ph_parent_color := ph_color h (root_of l) OR n\<rparr>"
      using Node.prems(11) True a by (auto simp: root_of_zero)
    ultimately have l: "tree_at h' n l"
      using tree_at_reparent[of h a l n h'] a Node.prems(7) by blast
    have "\<forall>x \<in> nodes r. x \<noteq> root_of r \<longrightarrow> h' x = h x"
    proof (intro ballI impI)
      fix x assume x: "x \<in> nodes r" "x \<noteq> root_of r"
      have "x \<noteq> v" using x True a by auto
      moreover have "x \<noteq> ph_right (h v)" using x True a by auto
      moreover have "x \<noteq> ph_left (h v)" using x True a rl z by auto
      moreover have "x \<noteq> ph_parent h v" using x pv Node.prems(3) by auto
      ultimately show "h' x = h x" using use_F1[of x] x by simp
    qed
    moreover have "r \<noteq> Leaf \<longrightarrow> h' (root_of r) =
        (h (root_of r))\<lparr>ph_parent_color := ph_color h (root_of r) OR n\<rparr>"
      using Node.prems(12) True a by (auto simp: root_of_zero)
    ultimately have r: "tree_at h' n r"
      using tree_at_reparent[of h a r n h'] a Node.prems(7) by blast
    have "rename_node v n (Node l a c r) = Node l n c r"
      using True a by (simp add: rename_other)
    then show ?thesis
      using l r Node.prems(10) True a n Node.prems(6,7) by simp
  next
    case False
    then consider "v \<in> nodes l" | "v \<in> nodes r" using Node.prems(4) by auto
    then show ?thesis
    proof cases
      case 1
      then have vr: "v \<notin> nodes r" using a by auto
      from node_facts[OF a(6) a(2) a(8) 1] obtain l' c' r' where
        sub: "tree_at h (ph_parent h v) (Node l' v c' r')" "nodes (Node l' v c' r') \<subseteq> nodes l"
        "ph_parent h v = a \<and> v = root_of l \<or> ph_parent h v \<in> nodes l \<and> v \<noteq> root_of l"
        by blast
      have ch: "ph_left (h v) = 0 \<or> ph_left (h v) \<in> nodes l"
        "ph_right (h v) = 0 \<or> ph_right (h v) \<in> nodes l"
        using sub(1,2) root_in_or_null[of h v l'] root_in_or_null[of h v r'] by auto
      have fr: "\<forall>x\<in>nodes r. h' x = h x"
      proof
        fix x assume x: "x \<in> nodes r"
        have "x \<noteq> v" using x vr by auto
        moreover have "x \<noteq> ph_left (h v)" using x ch(1) z a(10) by auto
        moreover have "x \<noteq> ph_right (h v)" using x ch(2) z a(10) by auto
        moreover have "x \<noteq> ph_parent h v" using x sub(3) a by auto
        ultimately show "h' x = h x" using use_F1[of x] x by simp
      qed
      have r: "tree_at h' a r" using a(7) fr by (rule tree_at_frame)
      have F5l: "v \<noteq> root_of l \<longrightarrow> h' (ph_parent h v) =
               (if ph_left (h (ph_parent h v)) = v then (h (ph_parent h v))\<lparr>ph_left := n\<rparr>
                else (h (ph_parent h v))\<lparr>ph_right := n\<rparr>)"
        using Node.prems(13) False by simp
      have F1l: "\<forall>x \<in> nodes l. x \<noteq> v \<longrightarrow> x \<noteq> ph_left (h v) \<longrightarrow> x \<noteq> ph_right (h v) \<longrightarrow>
               x \<noteq> ph_parent h v \<longrightarrow> h' x = h x"
        using F1' by simp
      have l: "tree_at h' a (rename_node v n l)"
        using Node.IH(1)[OF a(6) a(2) a(8) 1 n(2) Node.prems(6,7) n(1) F1l Node.prems(10,11,12) F5l] .
      have ha: "ph_left (h' a) = root_of (rename_node v n l) \<and> ph_right (h' a) = ph_right (h a) \<and>
                ph_parent_color (h' a) = ph_parent_color (h a)"
      proof (cases "v = root_of l")
        case True
        then have "ph_parent h v = a" using sub(3) by auto
        then have "h' a = (h a)\<lparr>ph_left := n\<rparr>"
          using Node.prems(13) False a True by simp
        then show ?thesis using True v0 by (simp add: root_of_rename)
      next
        case nr: False
        then have "ph_parent h v \<in> nodes l" using sub(3) by auto
        then have "a \<noteq> ph_parent h v" using a by auto
        moreover have "a \<noteq> ph_left (h v)" "a \<noteq> ph_right (h v)" using ch a by auto
        ultimately have "h' a = h a" using use_F1[of a] False by simp
        then show ?thesis using nr v0 a by (simp add: root_of_rename)
      qed
      have "rename_node v n (Node l a c r) = Node (rename_node v n l) a c r"
        using False vr by (simp add: rename_other)
      then show ?thesis
        using l r ha a n 1 by (auto simp: nodes_rename)
    next
      case 2
      then have vl: "v \<notin> nodes l" using a by auto
      from node_facts[OF a(7) a(2) a(9) 2] obtain l' c' r' where
        sub: "tree_at h (ph_parent h v) (Node l' v c' r')" "nodes (Node l' v c' r') \<subseteq> nodes r"
        "ph_parent h v = a \<and> v = root_of r \<or> ph_parent h v \<in> nodes r \<and> v \<noteq> root_of r"
        by blast
      have ch: "ph_left (h v) = 0 \<or> ph_left (h v) \<in> nodes r"
        "ph_right (h v) = 0 \<or> ph_right (h v) \<in> nodes r"
        using sub(1,2) root_in_or_null[of h v l'] root_in_or_null[of h v r'] by auto
      have fr: "\<forall>x\<in>nodes l. h' x = h x"
      proof
        fix x assume x: "x \<in> nodes l"
        have "x \<noteq> v" using x vl by auto
        moreover have "x \<noteq> ph_left (h v)" using x ch(1) z a(10) by auto
        moreover have "x \<noteq> ph_right (h v)" using x ch(2) z a(10) by auto
        moreover have "x \<noteq> ph_parent h v" using x sub(3) a by auto
        ultimately show "h' x = h x" using use_F1[of x] x by simp
      qed
      have l: "tree_at h' a l" using a(6) fr by (rule tree_at_frame)
      have F5r: "v \<noteq> root_of r \<longrightarrow> h' (ph_parent h v) =
               (if ph_left (h (ph_parent h v)) = v then (h (ph_parent h v))\<lparr>ph_left := n\<rparr>
                else (h (ph_parent h v))\<lparr>ph_right := n\<rparr>)"
        using Node.prems(13) False by simp
      have F1r: "\<forall>x \<in> nodes r. x \<noteq> v \<longrightarrow> x \<noteq> ph_left (h v) \<longrightarrow> x \<noteq> ph_right (h v) \<longrightarrow>
               x \<noteq> ph_parent h v \<longrightarrow> h' x = h x"
        using F1' by simp
      have r: "tree_at h' a (rename_node v n r)"
        using Node.IH(2)[OF a(7) a(2) a(9) 2 n(3) Node.prems(6,7) n(1) F1r Node.prems(10,11,12) F5r] .
      have ha: "ph_right (h' a) = root_of (rename_node v n r) \<and> ph_left (h' a) = ph_left (h a) \<and>
                ph_parent_color (h' a) = ph_parent_color (h a)"
      proof (cases "v = root_of r")
        case True
        then have "ph_parent h v = a" using sub(3) by auto
        moreover have "ph_left (h a) \<noteq> v" using a rl vl v0 by auto
        ultimately have "h' a = (h a)\<lparr>ph_right := n\<rparr>"
          using Node.prems(13) False a True by simp
        then show ?thesis using True v0 by (simp add: root_of_rename)
      next
        case nr: False
        then have "ph_parent h v \<in> nodes r" using sub(3) by auto
        then have "a \<noteq> ph_parent h v" using a by auto
        moreover have "a \<noteq> ph_left (h v)" "a \<noteq> ph_right (h v)" using ch a by auto
        ultimately have "h' a = h a" using use_F1[of a] False by simp
        then show ?thesis using nr v0 a by (simp add: root_of_rename)
      qed
      have "rename_node v n (Node l a c r) = Node l a c (rename_node v n r)"
        using False vl by (simp add: rename_other)
      then show ?thesis
        using l r ha a n 2 by (auto simp: nodes_rename)
    qed
  qed
qed


text \<open>
  C8. For a state that holds a tree, a victim linked in it and a fresh node (non-null,
  aligned, not in the tree), \<^verbatim>\<open>ph_replace_node\<close> leaves a state that holds the same tree, of
  the same shape, order and colours, with the fresh node in the victim's place. The fresh
  node receives the victim's three fields; apart from the fresh node, the victim's children
  and the victim's parent, every node of the memory is unchanged.
\<close>

theorem ph_replace_node_tree:
  assumes "ph_tree s t" "victim \<in> nodes t" "new \<notin> nodes t" "new \<noteq> 0" "ph_aligned new"
  shows "ph_tree (ph_replace_node s victim new) (rename_node victim new t) \<and>
         ph_mem (ph_replace_node s victim new) new = ph_mem s victim \<and>
         (\<forall>x. x \<noteq> new \<and> x \<noteq> ph_left (ph_mem s victim) \<and> x \<noteq> ph_right (ph_mem s victim) \<and>
              x \<noteq> ph_parent (ph_mem s) victim \<longrightarrow>
              ph_mem (ph_replace_node s victim new) x = ph_mem s x)"
proof -
  define h where "h = ph_mem s"
  define L where "L = ph_left (h victim)"
  define R where "R = ph_right (h victim)"
  define P where "P = ph_parent h victim"
  define s' where "s' = ph_replace_node s victim new"
  from assms(1) have t: "tree_at h 0 t" and rt: "ph_root s = root_of t"
    by (simp_all add: ph_tree_def h_def)
  have z: "0 \<notin> nodes t" using t by (rule tree_at_nonnull)
  from node_facts[OF t _ z assms(2)] obtain l c r where
    sub: "tree_at h P (Node l victim c r)" "nodes (Node l victim c r) \<subseteq> nodes t"
      "P \<notin> nodes (Node l victim c r)" "ph_aligned P"
      "P = 0 \<and> victim = root_of t \<or> P \<in> nodes t \<and> victim \<noteq> root_of t"
    by (auto simp: P_def)
  have Ll: "L = root_of l" and Rr: "R = root_of r" using sub(1) by (simp_all add: L_def R_def)
  have Lin: "L = 0 \<or> L \<in> nodes l" and Rin: "R = 0 \<or> R \<in> nodes r"
    using sub(1) root_in_or_null[of h victim l] root_in_or_null[of h victim r] Ll Rr by auto
  have zs: "0 \<notin> nodes l" "0 \<notin> nodes r" "victim \<noteq> 0" using z sub(2) by auto
  have d: "new \<noteq> victim" "new \<noteq> L" "new \<noteq> R" "new \<noteq> P"
    "L \<noteq> victim" "R \<noteq> victim" "P \<noteq> victim" "L \<noteq> 0 \<longrightarrow> L \<noteq> R" "R \<noteq> 0 \<longrightarrow> L \<noteq> R"
    "L \<noteq> 0 \<longrightarrow> L \<noteq> P" "R \<noteq> 0 \<longrightarrow> R \<noteq> P"
    using assms(2,3,4) sub Lin Rin zs by auto
  have P0: "P = 0 \<longleftrightarrow> victim = root_of t" using sub(5) z by auto
  have mem: "ph_mem s' =
     (let h1 = h(new := h victim);
          h2 = (if L \<noteq> 0 then h1(L := (h1 L)\<lparr>ph_parent_color := ph_color h1 L OR new\<rparr>) else h1);
          h3 = (if R \<noteq> 0 then h2(R := (h2 R)\<lparr>ph_parent_color := ph_color h2 R OR new\<rparr>) else h2)
      in if P \<noteq> 0 then
           (if ph_left (h P) = victim then h3(P := (h3 P)\<lparr>ph_left := new\<rparr>)
            else h3(P := (h3 P)\<lparr>ph_right := new\<rparr>))
         else h3)"
    using d unfolding s'_def ph_replace_node_def ph_change_child_def ph_set_parent_def Let_def
      h_def[symmetric] L_def[symmetric] R_def[symmetric] P_def[symmetric]
    by (simp add: L_def[symmetric] R_def[symmetric])
  have root: "ph_root s' = (if P \<noteq> 0 then ph_root s else new)"
    unfolding s'_def ph_replace_node_def ph_change_child_def Let_def
      h_def[symmetric] P_def[symmetric]
    by simp
  have F2: "ph_mem s' new = h victim"
    using d by (simp add: mem Let_def)
  have F1: "\<forall>x. x \<noteq> new \<and> x \<noteq> L \<and> x \<noteq> R \<and> x \<noteq> P \<longrightarrow> ph_mem s' x = h x"
    by (simp add: mem Let_def)
  have F3: "L \<noteq> 0 \<longrightarrow> ph_mem s' L = (h L)\<lparr>ph_parent_color := ph_color h L OR new\<rparr>"
    using d by (auto simp: mem Let_def ph_color_def)
  have F4: "R \<noteq> 0 \<longrightarrow> ph_mem s' R = (h R)\<lparr>ph_parent_color := ph_color h R OR new\<rparr>"
    using d by (auto simp: mem Let_def ph_color_def)
  have F5: "victim \<noteq> root_of t \<longrightarrow> ph_mem s' P =
               (if ph_left (h P) = victim then (h P)\<lparr>ph_left := new\<rparr>
                else (h P)\<lparr>ph_right := new\<rparr>)"
    using d P0 by (auto simp: mem Let_def)
  have "tree_at (ph_mem s') 0 (rename_node victim new t)"
  proof (rule replace_tree_at[OF t _ z assms(2,3,4,5) assms(4)])
    show "ph_aligned 0" by simp
    show "\<forall>x\<in>nodes t. x \<noteq> victim \<longrightarrow> x \<noteq> ph_left (h victim) \<longrightarrow> x \<noteq> ph_right (h victim) \<longrightarrow>
            x \<noteq> ph_parent h victim \<longrightarrow> ph_mem s' x = h x"
      using F1 assms(3) by (auto simp: L_def R_def P_def)
    show "ph_mem s' new = h victim" by (rule F2)
    show "ph_left (h victim) \<noteq> 0 \<longrightarrow> ph_mem s' (ph_left (h victim)) =
            (h (ph_left (h victim)))\<lparr>ph_parent_color := ph_color h (ph_left (h victim)) OR new\<rparr>"
      using F3 by (simp add: L_def)
    show "ph_right (h victim) \<noteq> 0 \<longrightarrow> ph_mem s' (ph_right (h victim)) =
            (h (ph_right (h victim)))\<lparr>ph_parent_color := ph_color h (ph_right (h victim)) OR new\<rparr>"
      using F4 by (simp add: R_def)
    show "victim \<noteq> root_of t \<longrightarrow> ph_mem s' (ph_parent h victim) =
            (if ph_left (h (ph_parent h victim)) = victim then (h (ph_parent h victim))\<lparr>ph_left := new\<rparr>
             else (h (ph_parent h victim))\<lparr>ph_right := new\<rparr>)"
      using F5 by (simp add: P_def)
  qed
  moreover have "ph_root s' = root_of (rename_node victim new t)"
    using root rt P0 zs by (simp add: root_of_rename)
  ultimately have "ph_tree s' (rename_node victim new t)" by (simp add: ph_tree_def)
  then show ?thesis using F1 F2 by (simp add: s'_def h_def L_def R_def P_def)
qed

theorem ph_replace_node_tree_witness:
  "ph_tree five_state five_tree \<and> 16 \<in> nodes five_tree \<and> 48 \<notin> nodes five_tree \<and>
   ph_tree (ph_replace_node five_state 16 48)
     (Node (Node (Node Leaf 8 Red Leaf) 48 Black (Node Leaf 24 Red Leaf)) 32 Black
           (Node Leaf 40 Black Leaf)) \<and>
   ph_mem (ph_replace_node five_state 16 48) 48 = ph_mem five_state 16"
  using ph_replace_node_tree [OF five_state_tree, of 16 48] five_state_tree
  by (simp add: five_tree_def ph_aligned_def)

section \<open>Insert fixup\<close>

lemma nodes_plug1: "nodes (plug1 f t) = insert (frame_addr f) (nodes t \<union> nodes (sibling f))"
  by (cases f) auto

lemma nodes_plug: "nodes (plug fs t) = nodes t \<union> ctx_nodes fs"
  by (induction fs arbitrary: t) (auto simp: nodes_plug1)

lemma tree_at_plug_hole:
  "tree_at h par (plug fs t) \<Longrightarrow> tree_at h (hole_parent par fs) t"
proof (induction fs arbitrary: t)
  case Nil
  then show ?case by simp
next
  case (Cons f fs)
  then have "tree_at h (hole_parent par fs) (plug1 f t)" by simp
  then show ?case by (cases f) auto
qed

lemma tree_at_plug_disjoint:
  "tree_at h par (plug fs t) \<Longrightarrow> nodes t \<inter> ctx_nodes fs = {}"
proof (induction fs arbitrary: t)
  case Nil
  then show ?case by simp
next
  case (Cons f fs)
  then have d: "nodes (plug1 f t) \<inter> ctx_nodes fs = {}" by simp
  have "tree_at h (hole_parent par fs) (plug1 f t)"
    using Cons.prems tree_at_plug_hole[of h par fs "plug1 f t"] by simp
  then have "frame_addr f \<notin> nodes t \<and> nodes t \<inter> nodes (sibling f) = {}"
    by (cases f) auto
  then show ?case using d by (auto simp: nodes_plug1)
qed

lemma hole_parent_aligned:
  assumes "tree_at h par (plug fs t)" "ph_aligned par"
  shows "ph_aligned (hole_parent par fs)"
proof (cases fs)
  case Nil
  then show ?thesis using assms by simp
next
  case (Cons f fs')
  then have "tree_at h (hole_parent par fs') (plug1 f t)"
    using assms tree_at_plug_hole[of h par fs' "plug1 f t"] by simp
  then show ?thesis using Cons by (cases f) auto
qed

lemma plug_replace:
  assumes "tree_at h par (plug fs t)" "tree_at h' (hole_parent par fs) t'" "nodes t' = nodes t"
    "\<forall>x \<in> ctx_nodes fs. x \<noteq> hole_parent par fs \<longrightarrow> h' x = h x"
    "fs \<noteq> [] \<longrightarrow> h' (frame_addr (hd fs)) = relink (hd fs) (h (frame_addr (hd fs))) (root_of t')"
  shows "tree_at h' par (plug fs t')"
  using assms
proof (induction fs arbitrary: t t')
  case Nil
  then show ?case by simp
next
  case (Cons f fs)
  have hole: "tree_at h (hole_parent par fs) (plug1 f t)"
    using Cons.prems(1) tree_at_plug_hole[of h par fs "plug1 f t"] by simp
  have dis: "nodes (plug1 f t) \<inter> ctx_nodes fs = {}"
    using Cons.prems(1) tree_at_plug_disjoint[of h par fs "plug1 f t"] by simp
  have sib: "\<forall>x \<in> nodes (sibling f). h' x = h x"
  proof
    fix x assume "x \<in> nodes (sibling f)"
    moreover from this have "x \<noteq> frame_addr f" using hole by (cases f) auto
    ultimately show "h' x = h x" using Cons.prems(4) by simp
  qed
  have new: "tree_at h' (hole_parent par fs) (plug1 f t')"
  proof (cases f)
    case (Left_of a c r)
    have "tree_at h a r" "\<forall>x\<in>nodes r. h' x = h x" using hole sib Left_of by auto
    then have "tree_at h' a r" by (rule tree_at_frame)
    then show ?thesis
      using hole Cons.prems(2,3,5) Left_of by auto
  next
    case (Right_of l a c)
    have "tree_at h a l" "\<forall>x\<in>nodes l. h' x = h x" using hole sib Right_of by auto
    then have "tree_at h' a l" by (rule tree_at_frame)
    then show ?thesis
      using hole Cons.prems(2,3,5) Right_of by auto
  qed
  have n: "nodes (plug1 f t') = nodes (plug1 f t)"
    using Cons.prems(3) by (simp add: nodes_plug1)
  have out: "\<forall>x\<in>ctx_nodes fs. x \<noteq> hole_parent par fs \<longrightarrow> h' x = h x"
  proof (intro ballI impI)
    fix x assume x: "x \<in> ctx_nodes fs" "x \<noteq> hole_parent par fs"
    then have "x \<noteq> frame_addr f" using dis by (auto simp: nodes_plug1)
    then show "h' x = h x" using x Cons.prems(4) by simp
  qed
  have top: "fs \<noteq> [] \<longrightarrow> h' (frame_addr (hd fs)) =
      relink (hd fs) (h (frame_addr (hd fs))) (root_of (plug1 f t'))"
  proof
    assume ne: "fs \<noteq> []"
    then obtain g gs where fs: "fs = g # gs" by (cases fs) auto
    have gin: "frame_addr g \<in> ctx_nodes (f # fs)" using fs by simp
    have "frame_addr g \<noteq> frame_addr f" using dis fs by (auto simp: nodes_plug1)
    then have same: "h' (frame_addr g) = h (frame_addr g)"
      using Cons.prems(4) gin by simp
    have "tree_at h (hole_parent par gs) (plug1 g (plug1 f t))"
      using Cons.prems(1) fs tree_at_plug_hole[of h par gs "plug1 g (plug1 f t)"] by simp
    then have "relink g (h (frame_addr g)) (frame_addr f) = h (frame_addr g)"
      by (cases g; cases f) auto
    moreover have "root_of (plug1 f t') = frame_addr f" by (cases f) auto
    ultimately show "h' (frame_addr (hd fs)) =
      relink (hd fs) (h (frame_addr (hd fs))) (root_of (plug1 f t'))"
      using same fs by simp
  qed
  show ?case
    using Cons.IH[OF _ _ n out top, of ] Cons.prems(1) new by simp
qed


lemma root_of_plug: "root_of (plug fs t) = (if fs = [] then root_of t else root_of (plug fs Leaf))"
proof (induction fs arbitrary: t)
  case Nil
  then show ?case by simp
next
  case (Cons f fs)
  have "root_of (plug1 f t) = root_of (plug1 f Leaf)" by (cases f) auto
  then show ?case using Cons[of "plug1 f t"] Cons[of "plug1 f Leaf"] by auto
qed

lemma hole_link:
  assumes "tree_at h par (plug (f # fs) G)" "G \<noteq> Leaf"
  shows "frame_addr f \<noteq> 0 \<and> frame_addr f \<notin> nodes G \<and>
         (if ph_left (h (frame_addr f)) = root_of G then nd\<lparr>ph_left := v\<rparr> else nd\<lparr>ph_right := v\<rparr>)
           = relink f nd v"
proof -
  have t: "tree_at h (hole_parent par fs) (plug1 f G)"
    using assms(1) tree_at_plug_hole[of h par fs "plug1 f G"] by simp
  have r: "root_of G \<in> nodes G" "root_of G \<noteq> 0"
    using assms(2) tree_at_plug_hole[OF assms(1)] by (cases G; auto)+
  show ?thesis
  proof (cases f)
    case (Left_of a c r)
    then show ?thesis using t by auto
  next
    case (Right_of l a c)
    then have "tree_at h a l" "nodes l \<inter> nodes G = {}" using t by auto
    then have "root_of l \<noteq> root_of G"
      using r root_in_or_null[of h a l] by auto
    then show ?thesis using t Right_of by auto
  qed
qed

lemma subtree_replaced:
  assumes "ph_tree s (plug fs G)" "G \<noteq> Leaf" "G' \<noteq> Leaf" "nodes G' = nodes G"
    "tree_at (ph_mem s1) (hole_parent 0 fs) G'"
    "\<forall>x. x \<notin> nodes G \<longrightarrow> x \<noteq> hole_parent 0 fs \<longrightarrow> ph_mem s1 x = ph_mem s x"
    "hole_parent 0 fs \<noteq> 0 \<longrightarrow> ph_mem s1 (hole_parent 0 fs) =
       (if ph_left (ph_mem s (hole_parent 0 fs)) = root_of G
        then (ph_mem s (hole_parent 0 fs))\<lparr>ph_left := root_of G'\<rparr>
        else (ph_mem s (hole_parent 0 fs))\<lparr>ph_right := root_of G'\<rparr>)"
    "ph_root s1 = (if hole_parent 0 fs = 0 then root_of G' else ph_root s)"
  shows "ph_tree s1 (plug fs G')"
proof -
  from assms(1) have t: "tree_at (ph_mem s) 0 (plug fs G)" and r: "ph_root s = root_of (plug fs G)"
    by (simp_all add: ph_tree_def)
  have dis: "nodes G \<inter> ctx_nodes fs = {}" using t by (rule tree_at_plug_disjoint)
  have fr: "\<forall>x \<in> ctx_nodes fs. x \<noteq> hole_parent 0 fs \<longrightarrow> ph_mem s1 x = ph_mem s x"
    using assms(6) dis by auto
  have top: "fs \<noteq> [] \<longrightarrow> ph_mem s1 (frame_addr (hd fs)) =
      relink (hd fs) (ph_mem s (frame_addr (hd fs))) (root_of G')"
  proof
    assume "fs \<noteq> []"
    then obtain f fs' where fs: "fs = f # fs'" by (cases fs) auto
    have hl: "frame_addr f \<noteq> 0 \<and> frame_addr f \<notin> nodes G \<and>
         (if ph_left (ph_mem s (frame_addr f)) = root_of G
          then (ph_mem s (frame_addr f))\<lparr>ph_left := root_of G'\<rparr>
          else (ph_mem s (frame_addr f))\<lparr>ph_right := root_of G'\<rparr>)
           = relink f (ph_mem s (frame_addr f)) (root_of G')"
      using hole_link[of "ph_mem s" 0 f fs' G] t assms(2) fs by simp
    then show "ph_mem s1 (frame_addr (hd fs)) =
      relink (hd fs) (ph_mem s (frame_addr (hd fs))) (root_of G')"
      using assms(7) fs by (cases "ph_left (ph_mem s (frame_addr f)) = root_of G") simp_all
  qed
  have t': "tree_at (ph_mem s1) 0 (plug fs G')"
    using plug_replace[OF t assms(5) assms(4) fr top] .
  have "ph_root s1 = root_of (plug fs G')"
  proof (cases fs)
    case Nil
    then show ?thesis using assms(8) by simp
  next
    case (Cons f fs')
    then have "frame_addr f \<noteq> 0"
      using hole_link[of "ph_mem s" 0 f fs' G] t assms(2) by simp
    then show ?thesis
      using assms(8) Cons r root_of_plug[of fs G] root_of_plug[of fs G'] by simp
  qed
  then show ?thesis using t' by (simp add: ph_tree_def)
qed

lemma tree_at_upd [simp]:
  "x \<notin> nodes t \<Longrightarrow> tree_at (h(x := v)) par t = tree_at h par t"
  by (induction t arbitrary: par) auto

lemma rotate_set_parents_mem:
  assumes "old \<noteq> new" "ph_parent (ph_mem s) old = P" "P \<noteq> old" "P \<noteq> new"
  shows "ph_mem (ph_rotate_set_parents s old new c) =
           (if P = 0 then
              (ph_mem s)(new := (ph_mem s new)\<lparr>ph_parent_color := ph_parent_color (ph_mem s old)\<rparr>,
                         old := (ph_mem s old)\<lparr>ph_parent_color := new OR c\<rparr>)
            else
              (ph_mem s)(new := (ph_mem s new)\<lparr>ph_parent_color := ph_parent_color (ph_mem s old)\<rparr>,
                         old := (ph_mem s old)\<lparr>ph_parent_color := new OR c\<rparr>,
                         P := (if ph_left (ph_mem s P) = old then (ph_mem s P)\<lparr>ph_left := new\<rparr>
                               else (ph_mem s P)\<lparr>ph_right := new\<rparr>)))"
    and "ph_root (ph_rotate_set_parents s old new c) = (if P = 0 then new else ph_root s)"
  using assms
  by (auto simp: ph_rotate_set_parents_def ph_change_child_def ph_set_parent_color_def Let_def)


lemma unpack_BLACK: "ph_aligned a \<Longrightarrow> (a OR ph_BLACK) AND NOT 1 = a"
  using unpack_parent[of a Black] by simp

lemma unpack_RED: "ph_aligned a \<Longrightarrow> (a OR ph_RED) AND NOT 1 = a"
  using unpack_parent[of a Red] by simp

lemma ph_parent_BLACK:
  "ph_parent_color (h n) = a OR ph_BLACK \<Longrightarrow> ph_aligned a \<Longrightarrow> ph_parent h n = a"
  using ph_parent_packed[of h n a Black] by simp

lemma ph_parent_RED:
  "ph_parent_color (h n) = a OR ph_RED \<Longrightarrow> ph_aligned a \<Longrightarrow> ph_parent h n = a"
  using ph_parent_packed[of h n a Red] by simp

lemma ph_color_BLACK:
  "ph_parent_color (h n) = a OR ph_BLACK \<Longrightarrow> ph_aligned a \<Longrightarrow> ph_color h n = ph_BLACK"
  using ph_color_packed[of h n a Black] by simp

lemma ph_color_RED:
  "ph_parent_color (h n) = a OR ph_RED \<Longrightarrow> ph_aligned a \<Longrightarrow> ph_color h n = ph_RED"
  using ph_color_packed[of h n a Red] by simp

lemma tree_at_reparent_black:
  assumes "tree_at h q t" "root_color t = Black"
  shows "t = Leaf \<or> tree_at (h(root_of t := (h (root_of t))\<lparr>ph_parent_color := p OR ph_BLACK\<rparr>)) p t"
proof (cases t)
  case Leaf
  then show ?thesis by simp
next
  case (Node l a c r)
  then show ?thesis using assms by auto
qed

lemma case3_L_gen:
  assumes g: "g \<noteq> 0" "ph_aligned g" "ph_right (h g) = root_of u"
      "ph_parent_color (h g) = P OR ph_BLACK" "tree_at h g u"
    and p: "p \<noteq> 0" "ph_aligned p" "ph_left (h p) = root_of t" "tree_at h p t"
    and sb: "tree_at h q sb" "root_color sb = Black"
    and P: "ph_aligned P" "P \<noteq> g" "P \<noteq> p" "P \<notin> nodes t" "P \<notin> nodes sb" "P \<notin> nodes u"
    and d: "g \<noteq> p" "g \<notin> nodes t" "g \<notin> nodes sb" "g \<notin> nodes u"
      "p \<notin> nodes t" "p \<notin> nodes sb" "p \<notin> nodes u"
      "nodes t \<inter> nodes sb = {}" "nodes t \<inter> nodes u = {}" "nodes sb \<inter> nodes u = {}"
    and s: "ph_mem s = h"
    and s1: "s1 = fst (insert_case3_L aug s u0 g p (root_of sb))"
  shows "tree_at (ph_mem s1) P (Node t p Black (Node sb g Red u))"
    and "\<forall>x. x \<noteq> g \<and> x \<noteq> p \<and> x \<notin> nodes sb \<and> (x \<noteq> P \<or> P = 0) \<longrightarrow> ph_mem s1 x = h x"
    and "P \<noteq> 0 \<longrightarrow> ph_mem s1 P =
           (if ph_left (h P) = g then (h P)\<lparr>ph_left := p\<rparr> else (h P)\<lparr>ph_right := p\<rparr>)"
    and "ph_root s1 = (if P = 0 then p else ph_root s)"
proof -
  define h3 where "h3 =
    (let h1 = h(g := (h g)\<lparr>ph_left := root_of sb\<rparr>);
         h2 = h1(p := (h1 p)\<lparr>ph_right := g\<rparr>)
     in if root_of sb \<noteq> 0 then ph_set_parent_color h2 (root_of sb) g ph_BLACK else h2)"
  have rs: "root_of sb = 0 \<or> root_of sb \<in> nodes sb" using sb(1) by (rule root_in_or_null)
  have rsd: "root_of sb \<noteq> g" "root_of sb \<noteq> p" "root_of sb \<noteq> 0 \<longrightarrow> root_of sb \<noteq> P"
    using rs g p d P by auto
  have h3g: "h3 g = (h g)\<lparr>ph_left := root_of sb\<rparr>"
    using rsd d by (simp add: h3_def Let_def ph_set_parent_color_def)
  have h3p: "h3 p = (h p)\<lparr>ph_right := g\<rparr>"
    using rsd d by (simp add: h3_def Let_def ph_set_parent_color_def)
  have h3P: "h3 P = h P"
    using rsd P by (auto simp: h3_def Let_def ph_set_parent_color_def)
  have h3o: "\<And>x. x \<noteq> g \<Longrightarrow> x \<noteq> p \<Longrightarrow> x \<notin> nodes sb \<Longrightarrow> h3 x = h x"
    using rs by (auto simp: h3_def Let_def ph_set_parent_color_def)
  have par: "ph_parent h3 g = P"
    using g P by (intro ph_parent_BLACK) (simp_all add: h3g)
  have s1': "s1 = ph_rotate_set_parents (s\<lparr>ph_mem := h3\<rparr>) g p ph_RED"
    by (simp add: s1 insert_case3_L_def Let_def h3_def s)
  have m: "ph_mem s1 =
           (if P = 0 then
              h3(p := (h3 p)\<lparr>ph_parent_color := ph_parent_color (h3 g)\<rparr>,
                 g := (h3 g)\<lparr>ph_parent_color := p OR ph_RED\<rparr>)
            else
              h3(p := (h3 p)\<lparr>ph_parent_color := ph_parent_color (h3 g)\<rparr>,
                 g := (h3 g)\<lparr>ph_parent_color := p OR ph_RED\<rparr>,
                 P := (if ph_left (h3 P) = g then (h3 P)\<lparr>ph_left := p\<rparr>
                       else (h3 P)\<lparr>ph_right := p\<rparr>)))"
    unfolding s1' using rotate_set_parents_mem(1)[of g p "s\<lparr>ph_mem := h3\<rparr>" P ph_RED] d P par
    by simp
  show "ph_root s1 = (if P = 0 then p else ph_root s)"
    unfolding s1' using rotate_set_parents_mem(2)[of g p "s\<lparr>ph_mem := h3\<rparr>" P ph_RED] d P par
    by simp
  show "\<forall>x. x \<noteq> g \<and> x \<noteq> p \<and> x \<notin> nodes sb \<and> (x \<noteq> P \<or> P = 0) \<longrightarrow> ph_mem s1 x = h x"
    using h3o by (auto simp: m)
  show "P \<noteq> 0 \<longrightarrow> ph_mem s1 P =
           (if ph_left (h P) = g then (h P)\<lparr>ph_left := p\<rparr> else (h P)\<lparr>ph_right := p\<rparr>)"
    by (simp add: m h3P)
  have mg: "ph_mem s1 g = (h g)\<lparr>ph_left := root_of sb, ph_parent_color := p OR ph_RED\<rparr>"
    using P d by (simp add: m h3g)
  have mp: "ph_mem s1 p = (h p)\<lparr>ph_right := g, ph_parent_color := P OR ph_BLACK\<rparr>"
    using P d g by (simp add: m h3g h3p)
  have fr: "\<And>T par. g \<notin> nodes T \<Longrightarrow> p \<notin> nodes T \<Longrightarrow> P \<notin> nodes T \<Longrightarrow>
              tree_at (ph_mem s1) par T = tree_at h3 par T"
    by (simp add: m)
  have t3: "tree_at h3 p t"
  proof -
    have "root_of sb \<notin> nodes t" using rs d tree_at_nonnull[OF p(4)] by auto
    then show ?thesis using p(4) d by (simp add: h3_def Let_def ph_set_parent_color_def)
  qed
  have u3: "tree_at h3 g u"
  proof -
    have "root_of sb \<notin> nodes u" using rs d tree_at_nonnull[OF g(5)] by auto
    then show ?thesis using g(5) d by (simp add: h3_def Let_def ph_set_parent_color_def)
  qed
  have sb3: "tree_at h3 g sb"
  proof (cases "sb = Leaf")
    case True
    then show ?thesis by simp
  next
    case False
    then have r0: "root_of sb \<noteq> 0" using sb(1) by (simp add: root_of_zero)
    have "tree_at (h(root_of sb := (h (root_of sb))\<lparr>ph_parent_color := g OR ph_BLACK\<rparr>)) g sb"
      using tree_at_reparent_black[OF sb, of g] False by simp
    moreover have "h3 = (h(root_of sb := (h (root_of sb))\<lparr>ph_parent_color := g OR ph_BLACK\<rparr>))
        (g := (h g)\<lparr>ph_left := root_of sb\<rparr>, p := (h p)\<lparr>ph_right := g\<rparr>)"
      using r0 d rsd by (intro ext) (simp add: h3_def Let_def ph_set_parent_color_def)
    ultimately show ?thesis using d by simp
  qed
  show "tree_at (ph_mem s1) P (Node t p Black (Node sb g Red u))"
    using t3 u3 sb3 fr d P g p mg mp by auto
qed

lemma case3_R_gen:
  assumes g: "g \<noteq> 0" "ph_aligned g" "ph_left (h g) = root_of u"
      "ph_parent_color (h g) = P OR ph_BLACK" "tree_at h g u"
    and p: "p \<noteq> 0" "ph_aligned p" "ph_right (h p) = root_of t" "tree_at h p t"
    and sb: "tree_at h q sb" "root_color sb = Black"
    and P: "ph_aligned P" "P \<noteq> g" "P \<noteq> p" "P \<notin> nodes t" "P \<notin> nodes sb" "P \<notin> nodes u"
    and d: "g \<noteq> p" "g \<notin> nodes t" "g \<notin> nodes sb" "g \<notin> nodes u"
      "p \<notin> nodes t" "p \<notin> nodes sb" "p \<notin> nodes u"
      "nodes t \<inter> nodes sb = {}" "nodes t \<inter> nodes u = {}" "nodes sb \<inter> nodes u = {}"
    and s: "ph_mem s = h"
    and s1: "s1 = fst (insert_case3_R aug s u0 g p (root_of sb))"
  shows "tree_at (ph_mem s1) P (Node (Node u g Red sb) p Black t)"
    and "\<forall>x. x \<noteq> g \<and> x \<noteq> p \<and> x \<notin> nodes sb \<and> (x \<noteq> P \<or> P = 0) \<longrightarrow> ph_mem s1 x = h x"
    and "P \<noteq> 0 \<longrightarrow> ph_mem s1 P =
           (if ph_left (h P) = g then (h P)\<lparr>ph_left := p\<rparr> else (h P)\<lparr>ph_right := p\<rparr>)"
    and "ph_root s1 = (if P = 0 then p else ph_root s)"
proof -
  define h3 where "h3 =
    (let h1 = h(g := (h g)\<lparr>ph_right := root_of sb\<rparr>);
         h2 = h1(p := (h1 p)\<lparr>ph_left := g\<rparr>)
     in if root_of sb \<noteq> 0 then ph_set_parent_color h2 (root_of sb) g ph_BLACK else h2)"
  have rs: "root_of sb = 0 \<or> root_of sb \<in> nodes sb" using sb(1) by (rule root_in_or_null)
  have rsd: "root_of sb \<noteq> g" "root_of sb \<noteq> p" "root_of sb \<noteq> 0 \<longrightarrow> root_of sb \<noteq> P"
    using rs g p d P by auto
  have h3g: "h3 g = (h g)\<lparr>ph_right := root_of sb\<rparr>"
    using rsd d by (simp add: h3_def Let_def ph_set_parent_color_def)
  have h3p: "h3 p = (h p)\<lparr>ph_left := g\<rparr>"
    using rsd d by (simp add: h3_def Let_def ph_set_parent_color_def)
  have h3P: "h3 P = h P"
    using rsd P by (auto simp: h3_def Let_def ph_set_parent_color_def)
  have h3o: "\<And>x. x \<noteq> g \<Longrightarrow> x \<noteq> p \<Longrightarrow> x \<notin> nodes sb \<Longrightarrow> h3 x = h x"
    using rs by (auto simp: h3_def Let_def ph_set_parent_color_def)
  have par: "ph_parent h3 g = P"
    using g P by (intro ph_parent_BLACK) (simp_all add: h3g)
  have s1': "s1 = ph_rotate_set_parents (s\<lparr>ph_mem := h3\<rparr>) g p ph_RED"
    by (simp add: s1 insert_case3_R_def Let_def h3_def s)
  have m: "ph_mem s1 =
           (if P = 0 then
              h3(p := (h3 p)\<lparr>ph_parent_color := ph_parent_color (h3 g)\<rparr>,
                 g := (h3 g)\<lparr>ph_parent_color := p OR ph_RED\<rparr>)
            else
              h3(p := (h3 p)\<lparr>ph_parent_color := ph_parent_color (h3 g)\<rparr>,
                 g := (h3 g)\<lparr>ph_parent_color := p OR ph_RED\<rparr>,
                 P := (if ph_left (h3 P) = g then (h3 P)\<lparr>ph_left := p\<rparr>
                       else (h3 P)\<lparr>ph_right := p\<rparr>)))"
    unfolding s1' using rotate_set_parents_mem(1)[of g p "s\<lparr>ph_mem := h3\<rparr>" P ph_RED] d P par
    by simp
  show "ph_root s1 = (if P = 0 then p else ph_root s)"
    unfolding s1' using rotate_set_parents_mem(2)[of g p "s\<lparr>ph_mem := h3\<rparr>" P ph_RED] d P par
    by simp
  show "\<forall>x. x \<noteq> g \<and> x \<noteq> p \<and> x \<notin> nodes sb \<and> (x \<noteq> P \<or> P = 0) \<longrightarrow> ph_mem s1 x = h x"
    using h3o by (auto simp: m)
  show "P \<noteq> 0 \<longrightarrow> ph_mem s1 P =
           (if ph_left (h P) = g then (h P)\<lparr>ph_left := p\<rparr> else (h P)\<lparr>ph_right := p\<rparr>)"
    by (simp add: m h3P)
  have mg: "ph_mem s1 g = (h g)\<lparr>ph_right := root_of sb, ph_parent_color := p OR ph_RED\<rparr>"
    using P d by (simp add: m h3g)
  have mp: "ph_mem s1 p = (h p)\<lparr>ph_left := g, ph_parent_color := P OR ph_BLACK\<rparr>"
    using P d g by (simp add: m h3g h3p)
  have fr: "\<And>T par. g \<notin> nodes T \<Longrightarrow> p \<notin> nodes T \<Longrightarrow> P \<notin> nodes T \<Longrightarrow>
              tree_at (ph_mem s1) par T = tree_at h3 par T"
    by (simp add: m)
  have t3: "tree_at h3 p t"
  proof -
    have "root_of sb \<notin> nodes t" using rs d tree_at_nonnull[OF p(4)] by auto
    then show ?thesis using p(4) d by (simp add: h3_def Let_def ph_set_parent_color_def)
  qed
  have u3: "tree_at h3 g u"
  proof -
    have "root_of sb \<notin> nodes u" using rs d tree_at_nonnull[OF g(5)] by auto
    then show ?thesis using g(5) d by (simp add: h3_def Let_def ph_set_parent_color_def)
  qed
  have sb3: "tree_at h3 g sb"
  proof (cases "sb = Leaf")
    case True
    then show ?thesis by simp
  next
    case False
    then have r0: "root_of sb \<noteq> 0" using sb(1) by (simp add: root_of_zero)
    have "tree_at (h(root_of sb := (h (root_of sb))\<lparr>ph_parent_color := g OR ph_BLACK\<rparr>)) g sb"
      using tree_at_reparent_black[OF sb, of g] False by simp
    moreover have "h3 = (h(root_of sb := (h (root_of sb))\<lparr>ph_parent_color := g OR ph_BLACK\<rparr>))
        (g := (h g)\<lparr>ph_right := root_of sb\<rparr>, p := (h p)\<lparr>ph_left := g\<rparr>)"
      using r0 d rsd by (intro ext) (simp add: h3_def Let_def ph_set_parent_color_def)
    ultimately show ?thesis using d by simp
  qed
  show "tree_at (ph_mem s1) P (Node (Node u g Red sb) p Black t)"
    using t3 u3 sb3 fr d P g p mg mp by auto
qed



lemma case2_L_mem:
  assumes tr: "tree_at h g (Node sl p Red (Node ta n Red tb))" "root_color ta = Black"
    and s: "ph_mem s = h"
    and s1: "s1 = fst (insert_case2_L aug s u0 n p)"
  shows "tree_at (ph_mem s1) n (Node sl p Red ta)"
    and "ph_left (ph_mem s1 n) = p" and "ph_right (ph_mem s1 n) = root_of tb"
    and "tree_at (ph_mem s1) n tb"
    and "\<forall>x. x \<noteq> p \<and> x \<noteq> n \<and> x \<notin> nodes ta \<longrightarrow> ph_mem s1 x = h x"
    and "ph_root s1 = ph_root s"
proof -
  from tr(1) have p: "p \<noteq> 0" "ph_aligned p" "ph_left (h p) = root_of sl" "ph_right (h p) = n"
    "tree_at h p sl" "p \<notin> nodes sl" "p \<noteq> n" "p \<notin> nodes ta" "p \<notin> nodes tb"
    by auto
  from tr(1) have n: "n \<noteq> 0" "ph_aligned n" "ph_left (h n) = root_of ta" "ph_right (h n) = root_of tb"
    "tree_at h n ta" "tree_at h n tb" "n \<notin> nodes ta" "n \<notin> nodes tb" "n \<notin> nodes sl"
    "nodes ta \<inter> nodes tb = {}" "nodes sl \<inter> nodes ta = {}" "nodes sl \<inter> nodes tb = {}"
    by auto
  have rt: "root_of ta = 0 \<or> root_of ta \<in> nodes ta" using n(5) by (rule root_in_or_null)
  have rtd: "root_of ta \<noteq> p" "root_of ta \<noteq> n" using rt p n by auto
  have z: "0 \<notin> nodes sl" "0 \<notin> nodes tb"
    using tree_at_nonnull[OF p(5)] tree_at_nonnull[OF n(6)] by auto
  have rtn: "root_of ta \<notin> nodes sl" "root_of ta \<notin> nodes tb" using rt n z by auto
  define X where "X = (h (root_of ta))\<lparr>ph_parent_color := p OR ph_BLACK\<rparr>"
  have m: "ph_mem s1 = (if root_of ta \<noteq> 0 then h(root_of ta := X) else h)
      (n := (h n)\<lparr>ph_left := p\<rparr>, p := (h p)\<lparr>ph_right := root_of ta, ph_parent_color := n OR ph_RED\<rparr>)"
    using rtd p(7) n(3)
    by (intro ext) (simp add: s1 insert_case2_L_def Let_def ph_set_parent_color_def s X_def)
  show "ph_root s1 = ph_root s"
    by (simp add: s1 insert_case2_L_def Let_def)
  show "\<forall>x. x \<noteq> p \<and> x \<noteq> n \<and> x \<notin> nodes ta \<longrightarrow> ph_mem s1 x = h x"
    using rt by (auto simp: m)
  show "ph_left (ph_mem s1 n) = p" using p(7) by (simp add: m)
  show "ph_right (ph_mem s1 n) = root_of tb" using p(7) n by (simp add: m)
  show "tree_at (ph_mem s1) n tb" using n p rtn by (simp add: m)
  have sl: "tree_at (ph_mem s1) p sl" using n p rtn by (simp add: m)
  have ta: "tree_at (ph_mem s1) p ta"
  proof (cases "ta = Leaf")
    case True
    then show ?thesis by simp
  next
    case False
    then have "root_of ta \<noteq> 0" using n(5) by (simp add: root_of_zero)
    moreover have "tree_at (h(root_of ta := X)) p ta"
      using tree_at_reparent_black[OF n(5) tr(2), of p] False by (simp add: X_def)
    ultimately show ?thesis using n p by (simp add: m)
  qed
  show "tree_at (ph_mem s1) n (Node sl p Red ta)"
    using sl ta p n rtd by (auto simp: m)
qed

lemma case2_R_mem:
  assumes tr: "tree_at h g (Node (Node tb n Red ta) p Red sl)" "root_color ta = Black"
    and s: "ph_mem s = h"
    and s1: "s1 = fst (insert_case2_R aug s u0 n p)"
  shows "tree_at (ph_mem s1) n (Node ta p Red sl)"
    and "ph_right (ph_mem s1 n) = p" and "ph_left (ph_mem s1 n) = root_of tb"
    and "tree_at (ph_mem s1) n tb"
    and "\<forall>x. x \<noteq> p \<and> x \<noteq> n \<and> x \<notin> nodes ta \<longrightarrow> ph_mem s1 x = h x"
    and "ph_root s1 = ph_root s"
proof -
  from tr(1) have p: "p \<noteq> 0" "ph_aligned p" "ph_right (h p) = root_of sl" "ph_left (h p) = n"
    "tree_at h p sl" "p \<notin> nodes sl" "p \<noteq> n" "p \<notin> nodes ta" "p \<notin> nodes tb"
    by auto
  from tr(1) have n: "n \<noteq> 0" "ph_aligned n" "ph_right (h n) = root_of ta" "ph_left (h n) = root_of tb"
    "tree_at h n ta" "tree_at h n tb" "n \<notin> nodes ta" "n \<notin> nodes tb" "n \<notin> nodes sl"
    "nodes ta \<inter> nodes tb = {}" "nodes sl \<inter> nodes ta = {}" "nodes sl \<inter> nodes tb = {}"
    by auto
  have rt: "root_of ta = 0 \<or> root_of ta \<in> nodes ta" using n(5) by (rule root_in_or_null)
  have rtd: "root_of ta \<noteq> p" "root_of ta \<noteq> n" using rt p n by auto
  have z: "0 \<notin> nodes sl" "0 \<notin> nodes tb"
    using tree_at_nonnull[OF p(5)] tree_at_nonnull[OF n(6)] by auto
  have rtn: "root_of ta \<notin> nodes sl" "root_of ta \<notin> nodes tb" using rt n z by auto
  define X where "X = (h (root_of ta))\<lparr>ph_parent_color := p OR ph_BLACK\<rparr>"
  have m: "ph_mem s1 = (if root_of ta \<noteq> 0 then h(root_of ta := X) else h)
      (n := (h n)\<lparr>ph_right := p\<rparr>, p := (h p)\<lparr>ph_left := root_of ta, ph_parent_color := n OR ph_RED\<rparr>)"
    using rtd p(7) n(3)
    by (intro ext) (simp add: s1 insert_case2_R_def Let_def ph_set_parent_color_def s X_def)
  show "ph_root s1 = ph_root s"
    by (simp add: s1 insert_case2_R_def Let_def)
  show "\<forall>x. x \<noteq> p \<and> x \<noteq> n \<and> x \<notin> nodes ta \<longrightarrow> ph_mem s1 x = h x"
    using rt by (auto simp: m)
  show "ph_right (ph_mem s1 n) = p" using p(7) by (simp add: m)
  show "ph_left (ph_mem s1 n) = root_of tb" using p(7) n by (simp add: m)
  show "tree_at (ph_mem s1) n tb" using n p rtn by (simp add: m)
  have sl: "tree_at (ph_mem s1) p sl" using n p rtn by (simp add: m)
  have ta: "tree_at (ph_mem s1) p ta"
  proof (cases "ta = Leaf")
    case True
    then show ?thesis by simp
  next
    case False
    then have "root_of ta \<noteq> 0" using n(5) by (simp add: root_of_zero)
    moreover have "tree_at (h(root_of ta := X)) p ta"
      using tree_at_reparent_black[OF n(5) tr(2), of p] False by (simp add: X_def)
    ultimately show ?thesis using n p by (simp add: m)
  qed
  show "tree_at (ph_mem s1) n (Node ta p Red sl)"
    using sl ta p n rtd by (auto simp: m)
qed


lemma hole_parent_notin:
  assumes "tree_at h 0 (plug fs G)"
  shows "hole_parent 0 fs \<notin> nodes G"
proof (cases fs)
  case Nil
  then show ?thesis using tree_at_nonnull[OF assms] by simp
next
  case (Cons f fs')
  have "tree_at h (hole_parent 0 fs') (plug1 f G)"
    using assms Cons tree_at_plug_hole[of h 0 fs' "plug1 f G"] by simp
  then show ?thesis using Cons by (cases f) auto
qed

lemma subtree_recolored:
  assumes "ph_tree s (plug fs G)" "root_of G' = root_of G" "nodes G' = nodes G"
    "tree_at (ph_mem s1) (hole_parent 0 fs) G'"
    "\<forall>x. x \<notin> nodes G \<longrightarrow> ph_mem s1 x = ph_mem s x"
    "ph_root s1 = ph_root s"
  shows "ph_tree s1 (plug fs G')"
proof -
  from assms(1) have t: "tree_at (ph_mem s) 0 (plug fs G)" and r: "ph_root s = root_of (plug fs G)"
    by (simp_all add: ph_tree_def)
  have dis: "nodes G \<inter> ctx_nodes fs = {}" using t by (rule tree_at_plug_disjoint)
  have fr: "\<forall>x \<in> ctx_nodes fs. x \<noteq> hole_parent 0 fs \<longrightarrow> ph_mem s1 x = ph_mem s x"
    using assms(5) dis by auto
  have top: "fs \<noteq> [] \<longrightarrow> ph_mem s1 (frame_addr (hd fs)) =
      relink (hd fs) (ph_mem s (frame_addr (hd fs))) (root_of G')"
  proof
    assume "fs \<noteq> []"
    then obtain f fs' where fs: "fs = f # fs'" by (cases fs) auto
    have "frame_addr f \<notin> nodes G" using hole_parent_notin[OF t] fs by simp
    then have same: "ph_mem s1 (frame_addr f) = ph_mem s (frame_addr f)" using assms(5) by simp
    have "tree_at (ph_mem s) (hole_parent 0 fs') (plug1 f G)"
      using t fs tree_at_plug_hole[of "ph_mem s" 0 fs' "plug1 f G"] by simp
    then have "relink f (ph_mem s (frame_addr f)) (root_of G) = ph_mem s (frame_addr f)"
      by (cases f) auto
    then show "ph_mem s1 (frame_addr (hd fs)) =
      relink (hd fs) (ph_mem s (frame_addr (hd fs))) (root_of G')"
      using same fs assms(2) by simp
  qed
  have t': "tree_at (ph_mem s1) 0 (plug fs G')"
    using plug_replace[OF t assms(4) assms(3) fr top] .
  have "root_of (plug fs G') = root_of (plug fs G)"
    using root_of_plug[of fs G] root_of_plug[of fs G'] assms(2) by simp
  then show ?thesis using t' r assms(6) by (simp add: ph_tree_def)
qed



lemma rot_LL:
  assumes "ph_tree s (plug fs (Node (Node t p Red sb) g Black u))" "root_color sb = Black"
    and s1: "s1 = fst (insert_case3_L aug s u0 g p (root_of sb))"
  shows "ph_tree s1 (plug fs (Node t p Black (Node sb g Red u)))"
    and "\<forall>x. x \<notin> nodes (plug fs (Node (Node t p Red sb) g Black u)) \<longrightarrow> ph_mem s1 x = ph_mem s x"
proof -
  define P where "P = hole_parent 0 fs"
  define G where "G = Node (Node t p Red sb) g Black u"
  from assms(1) have t0: "tree_at (ph_mem s) 0 (plug fs G)"
    by (simp add: ph_tree_def G_def)
  have tG: "tree_at (ph_mem s) P G" using tree_at_plug_hole[OF t0] by (simp add: P_def)
  have aP: "ph_aligned P" using hole_parent_aligned[OF t0] by (simp add: P_def)
  have nP: "P \<notin> nodes G" using hole_parent_notin[OF t0] by (simp add: P_def)
  note c3 = case3_L_gen[where h="ph_mem s" and s=s and ?s1.0=s1 and g=g and p=p and t=t and sb=sb
      and u=u and P=P and q=p and aug=aug and ?u0.0=u0]
  have pre: "g \<noteq> 0" "ph_aligned g" "ph_right (ph_mem s g) = root_of u"
      "ph_parent_color (ph_mem s g) = P OR ph_BLACK" "tree_at (ph_mem s) g u"
      "p \<noteq> 0" "ph_aligned p" "ph_left (ph_mem s p) = root_of t" "tree_at (ph_mem s) p t"
      "tree_at (ph_mem s) p sb"
      "P \<noteq> g" "P \<noteq> p" "P \<notin> nodes t" "P \<notin> nodes sb" "P \<notin> nodes u"
      "g \<noteq> p" "g \<notin> nodes t" "g \<notin> nodes sb" "g \<notin> nodes u"
      "p \<notin> nodes t" "p \<notin> nodes sb" "p \<notin> nodes u"
      "nodes t \<inter> nodes sb = {}" "nodes t \<inter> nodes u = {}" "nodes sb \<inter> nodes u = {}"
    using tG nP by (simp_all add: G_def Int_Un_distrib Int_Un_distrib2 Int_commute)
  have r1: "tree_at (ph_mem s1) P (Node t p Black (Node sb g Red u))"
    by (rule c3(1)) (use pre assms(2) aP s1 in simp_all)
  have r2: "\<forall>x. x \<noteq> g \<and> x \<noteq> p \<and> x \<notin> nodes sb \<and> (x \<noteq> P \<or> P = 0) \<longrightarrow> ph_mem s1 x = ph_mem s x"
    by (rule c3(2)) (use pre assms(2) aP s1 in simp_all)
  have r3: "P \<noteq> 0 \<longrightarrow> ph_mem s1 P =
           (if ph_left (ph_mem s P) = g then (ph_mem s P)\<lparr>ph_left := p\<rparr>
            else (ph_mem s P)\<lparr>ph_right := p\<rparr>)"
    by (rule c3(3)) (use pre assms(2) aP s1 in simp_all)
  have r4: "ph_root s1 = (if P = 0 then p else ph_root s)"
    by (rule c3(4)) (use pre assms(2) aP s1 in simp_all)
  have fr: "\<forall>x. x \<notin> nodes G \<longrightarrow> x \<noteq> hole_parent 0 fs \<longrightarrow> ph_mem s1 x = ph_mem s x"
    using r2 by (auto simp: G_def P_def)
  have "ph_tree s1 (plug fs (Node t p Black (Node sb g Red u)))"
    by (rule subtree_replaced[where G=G and s=s])
       (use assms(1) r1 r3 r4 fr in \<open>auto simp: G_def P_def\<close>)
  then show "ph_tree s1 (plug fs (Node t p Black (Node sb g Red u)))" .
  have "P = 0 \<or> P \<in> ctx_nodes fs" by (cases fs) (auto simp: P_def)
  then show "\<forall>x. x \<notin> nodes (plug fs (Node (Node t p Red sb) g Black u)) \<longrightarrow> ph_mem s1 x = ph_mem s x"
  proof (intro allI impI)
    fix x assume x: "x \<notin> nodes (plug fs (Node (Node t p Red sb) g Black u))"
    then have "x \<noteq> g" "x \<noteq> p" "x \<notin> nodes sb" "x \<notin> ctx_nodes fs"
      by (simp_all add: nodes_plug)
    moreover from this \<open>P = 0 \<or> P \<in> ctx_nodes fs\<close> have "x \<noteq> P \<or> P = 0" by auto
    ultimately show "ph_mem s1 x = ph_mem s x" using r2 by blast
  qed
qed

lemma rot_RR:
  assumes "ph_tree s (plug fs (Node u g Black (Node sb p Red t)))" "root_color sb = Black"
    and s1: "s1 = fst (insert_case3_R aug s u0 g p (root_of sb))"
  shows "ph_tree s1 (plug fs (Node (Node u g Red sb) p Black t))"
    and "\<forall>x. x \<notin> nodes (plug fs (Node u g Black (Node sb p Red t))) \<longrightarrow> ph_mem s1 x = ph_mem s x"
proof -
  define P where "P = hole_parent 0 fs"
  define G where "G = Node u g Black (Node sb p Red t)"
  from assms(1) have t0: "tree_at (ph_mem s) 0 (plug fs G)"
    by (simp add: ph_tree_def G_def)
  have tG: "tree_at (ph_mem s) P G" using tree_at_plug_hole[OF t0] by (simp add: P_def)
  have aP: "ph_aligned P" using hole_parent_aligned[OF t0] by (simp add: P_def)
  have nP: "P \<notin> nodes G" using hole_parent_notin[OF t0] by (simp add: P_def)
  note c3 = case3_R_gen[where h="ph_mem s" and s=s and ?s1.0=s1 and g=g and p=p and t=t and sb=sb
      and u=u and P=P and q=p and aug=aug and ?u0.0=u0]
  have pre: "g \<noteq> 0" "ph_aligned g" "ph_left (ph_mem s g) = root_of u"
      "ph_parent_color (ph_mem s g) = P OR ph_BLACK" "tree_at (ph_mem s) g u"
      "p \<noteq> 0" "ph_aligned p" "ph_right (ph_mem s p) = root_of t" "tree_at (ph_mem s) p t"
      "tree_at (ph_mem s) p sb"
      "P \<noteq> g" "P \<noteq> p" "P \<notin> nodes t" "P \<notin> nodes sb" "P \<notin> nodes u"
      "g \<noteq> p" "g \<notin> nodes t" "g \<notin> nodes sb" "g \<notin> nodes u"
      "p \<notin> nodes t" "p \<notin> nodes sb" "p \<notin> nodes u"
      "nodes t \<inter> nodes sb = {}" "nodes t \<inter> nodes u = {}" "nodes sb \<inter> nodes u = {}"
    using tG nP by (simp_all add: G_def Int_Un_distrib Int_Un_distrib2 Int_commute)
  have r1: "tree_at (ph_mem s1) P (Node (Node u g Red sb) p Black t)"
    by (rule c3(1)) (use pre assms(2) aP s1 in simp_all)
  have r2: "\<forall>x. x \<noteq> g \<and> x \<noteq> p \<and> x \<notin> nodes sb \<and> (x \<noteq> P \<or> P = 0) \<longrightarrow> ph_mem s1 x = ph_mem s x"
    by (rule c3(2)) (use pre assms(2) aP s1 in simp_all)
  have r3: "P \<noteq> 0 \<longrightarrow> ph_mem s1 P =
           (if ph_left (ph_mem s P) = g then (ph_mem s P)\<lparr>ph_left := p\<rparr>
            else (ph_mem s P)\<lparr>ph_right := p\<rparr>)"
    by (rule c3(3)) (use pre assms(2) aP s1 in simp_all)
  have r4: "ph_root s1 = (if P = 0 then p else ph_root s)"
    by (rule c3(4)) (use pre assms(2) aP s1 in simp_all)
  have fr: "\<forall>x. x \<notin> nodes G \<longrightarrow> x \<noteq> hole_parent 0 fs \<longrightarrow> ph_mem s1 x = ph_mem s x"
    using r2 by (auto simp: G_def P_def)
  have "ph_tree s1 (plug fs (Node (Node u g Red sb) p Black t))"
    by (rule subtree_replaced[where G=G and s=s])
       (use assms(1) r1 r3 r4 fr in \<open>auto simp: G_def P_def\<close>)
  then show "ph_tree s1 (plug fs (Node (Node u g Red sb) p Black t))" .
  have "P = 0 \<or> P \<in> ctx_nodes fs" by (cases fs) (auto simp: P_def)
  then show "\<forall>x. x \<notin> nodes (plug fs (Node u g Black (Node sb p Red t))) \<longrightarrow> ph_mem s1 x = ph_mem s x"
  proof (intro allI impI)
    fix x assume x: "x \<notin> nodes (plug fs (Node u g Black (Node sb p Red t)))"
    then have "x \<noteq> g" "x \<noteq> p" "x \<notin> nodes sb" "x \<notin> ctx_nodes fs"
      by (simp_all add: nodes_plug)
    moreover from this \<open>P = 0 \<or> P \<in> ctx_nodes fs\<close> have "x \<noteq> P \<or> P = 0" by auto
    ultimately show "ph_mem s1 x = ph_mem s x" using r2 by blast
  qed
qed


lemma rot_LR:
  assumes "ph_tree s (plug fs (Node (Node sl p Red (Node ta n Red tb)) g Black u))"
    "root_color ta = Black" "root_color tb = Black"
    and s1: "s1 = fst (insert_case2_L aug s u0 n p)"
    and s2: "s2 = fst (insert_case3_L aug s1 u1 g n (ph_right (ph_mem s1 n)))"
  shows "ph_tree s2 (plug fs (Node (Node sl p Red ta) n Black (Node tb g Red u)))"
    and "\<forall>x. x \<notin> nodes (plug fs (Node (Node sl p Red (Node ta n Red tb)) g Black u)) \<longrightarrow>
           ph_mem s2 x = ph_mem s x"
proof -
  define P where "P = hole_parent 0 fs"
  define G where "G = Node (Node sl p Red (Node ta n Red tb)) g Black u"
  from assms(1) have t0: "tree_at (ph_mem s) 0 (plug fs G)"
    by (simp add: ph_tree_def G_def)
  have tG: "tree_at (ph_mem s) P G" using tree_at_plug_hole[OF t0] by (simp add: P_def)
  have aP: "ph_aligned P" using hole_parent_aligned[OF t0] by (simp add: P_def)
  have nP: "P \<notin> nodes G" using hole_parent_notin[OF t0] by (simp add: P_def)
  have pre: "g \<noteq> 0" "ph_aligned g" "ph_right (ph_mem s g) = root_of u"
      "ph_parent_color (ph_mem s g) = P OR ph_BLACK" "tree_at (ph_mem s) g u"
      "tree_at (ph_mem s) g (Node sl p Red (Node ta n Red tb))"
      "n \<noteq> 0" "ph_aligned n"
      "P \<noteq> g" "P \<noteq> p" "P \<noteq> n" "P \<notin> nodes sl" "P \<notin> nodes ta" "P \<notin> nodes tb" "P \<notin> nodes u"
      "g \<noteq> p" "g \<noteq> n" "g \<notin> nodes sl" "g \<notin> nodes ta" "g \<notin> nodes tb" "g \<notin> nodes u"
      "p \<noteq> n" "p \<notin> nodes sl" "p \<notin> nodes ta" "p \<notin> nodes tb" "p \<notin> nodes u"
      "n \<notin> nodes sl" "n \<notin> nodes ta" "n \<notin> nodes tb" "n \<notin> nodes u"
      "nodes sl \<inter> nodes ta = {}" "nodes sl \<inter> nodes tb = {}" "nodes sl \<inter> nodes u = {}"
      "nodes ta \<inter> nodes tb = {}" "nodes ta \<inter> nodes u = {}" "nodes tb \<inter> nodes u = {}"
    using tG nP by (simp_all add: G_def Int_Un_distrib Int_Un_distrib2 Int_commute)
  note c2 = case2_L_mem[where h="ph_mem s" and s=s and ?s1.0=s1 and g=g and p=p and n=n
      and sl=sl and ta=ta and tb=tb and aug=aug and ?u0.0=u0, OF pre(6) assms(2) refl s1]
  have fr1: "\<And>x. x \<noteq> p \<Longrightarrow> x \<noteq> n \<Longrightarrow> x \<notin> nodes ta \<Longrightarrow> ph_mem s1 x = ph_mem s x"
    using c2(5) by blast
  have g1: "ph_mem s1 g = ph_mem s g" using fr1[of g] pre by simp
  have P1: "ph_mem s1 P = ph_mem s P" using fr1[of P] pre by simp
  have u1: "tree_at (ph_mem s1) g u"
  proof (rule tree_at_frame[OF pre(5)])
    show "\<forall>x\<in>nodes u. ph_mem s1 x = ph_mem s x"
      using fr1 pre by (metis disjoint_iff)
  qed
  note c3 = case3_L_gen[where h="ph_mem s1" and s=s1 and ?s1.0=s2 and g=g and p=n
      and t="Node sl p Red ta" and sb=tb
      and u=u and P=P and q=n and aug=aug and ?u0.0=u1]
  have pre3: "ph_right (ph_mem s1 g) = root_of u"
      "ph_parent_color (ph_mem s1 g) = P OR ph_BLACK"
      "ph_left (ph_mem s1 n) = root_of (Node sl p Red ta)"
      "P \<notin> nodes (Node sl p Red ta)" "g \<notin> nodes (Node sl p Red ta)" "n \<notin> nodes (Node sl p Red ta)"
      "nodes (Node sl p Red ta) \<inter> nodes tb = {}" "nodes (Node sl p Red ta) \<inter> nodes u = {}"
      "s2 = fst (insert_case3_L aug s1 u1 g n (root_of tb))"
    using pre g1 c2(2,3) s2 by (simp_all add: Int_Un_distrib Int_Un_distrib2 Int_commute)
  have r1: "tree_at (ph_mem s2) P (Node (Node sl p Red ta) n Black (Node tb g Red u))"
    by (rule c3(1)) (use pre pre3 u1 c2(1,4) assms(3) aP in simp_all)
  have r2: "\<forall>x. x \<noteq> g \<and> x \<noteq> n \<and> x \<notin> nodes tb \<and> (x \<noteq> P \<or> P = 0) \<longrightarrow> ph_mem s2 x = ph_mem s1 x"
    by (rule c3(2)) (use pre pre3 u1 c2(1,4) assms(3) aP in simp_all)
  have r3: "P \<noteq> 0 \<longrightarrow> ph_mem s2 P =
           (if ph_left (ph_mem s1 P) = g then (ph_mem s1 P)\<lparr>ph_left := n\<rparr>
            else (ph_mem s1 P)\<lparr>ph_right := n\<rparr>)"
    by (rule c3(3)) (use pre pre3 u1 c2(1,4) assms(3) aP in simp_all)
  have r4: "ph_root s2 = (if P = 0 then n else ph_root s1)"
    by (rule c3(4)) (use pre pre3 u1 c2(1,4) assms(3) aP in simp_all)
  have r2': "\<And>x. x \<notin> nodes G \<Longrightarrow> x \<noteq> P \<or> P = 0 \<Longrightarrow> ph_mem s2 x = ph_mem s x"
  proof -
    fix x assume x: "x \<notin> nodes G" "x \<noteq> P \<or> P = 0"
    then have "ph_mem s2 x = ph_mem s1 x" using r2 by (simp add: G_def)
    moreover have "ph_mem s1 x = ph_mem s x" using fr1[of x] x by (simp add: G_def)
    ultimately show "ph_mem s2 x = ph_mem s x" by simp
  qed
  have fr: "\<forall>x. x \<notin> nodes G \<longrightarrow> x \<noteq> hole_parent 0 fs \<longrightarrow> ph_mem s2 x = ph_mem s x"
    using r2' by (simp add: P_def)
  have r3': "P \<noteq> 0 \<longrightarrow> ph_mem s2 P =
           (if ph_left (ph_mem s P) = g then (ph_mem s P)\<lparr>ph_left := n\<rparr>
            else (ph_mem s P)\<lparr>ph_right := n\<rparr>)"
    using r3 P1 by simp
  have r4': "ph_root s2 = (if P = 0 then n else ph_root s)"
    using r4 c2(6) by simp
  have "ph_tree s2 (plug fs (Node (Node sl p Red ta) n Black (Node tb g Red u)))"
    by (rule subtree_replaced[where G=G and s=s])
       (use assms(1) r1 r3' r4' fr in \<open>auto simp: G_def P_def\<close>)
  then show "ph_tree s2 (plug fs (Node (Node sl p Red ta) n Black (Node tb g Red u)))" .
  have Pc: "P = 0 \<or> P \<in> ctx_nodes fs" by (cases fs) (auto simp: P_def)
  show "\<forall>x. x \<notin> nodes (plug fs (Node (Node sl p Red (Node ta n Red tb)) g Black u)) \<longrightarrow>
           ph_mem s2 x = ph_mem s x"
  proof (intro allI impI)
    fix x assume x: "x \<notin> nodes (plug fs (Node (Node sl p Red (Node ta n Red tb)) g Black u))"
    then have "x \<notin> nodes G" "x \<notin> ctx_nodes fs"
      by (simp_all add: nodes_plug G_def)
    moreover from this Pc have "x \<noteq> P \<or> P = 0" by auto
    ultimately show "ph_mem s2 x = ph_mem s x" using r2' by blast
  qed
qed

lemma rot_RL:
  assumes "ph_tree s (plug fs (Node u g Black (Node (Node tb n Red ta) p Red sl)))"
    "root_color ta = Black" "root_color tb = Black"
    and s1: "s1 = fst (insert_case2_R aug s u0 n p)"
    and s2: "s2 = fst (insert_case3_R aug s1 u1 g n (ph_left (ph_mem s1 n)))"
  shows "ph_tree s2 (plug fs (Node (Node u g Red tb) n Black (Node ta p Red sl)))"
    and "\<forall>x. x \<notin> nodes (plug fs (Node u g Black (Node (Node tb n Red ta) p Red sl))) \<longrightarrow>
           ph_mem s2 x = ph_mem s x"
proof -
  define P where "P = hole_parent 0 fs"
  define G where "G = Node u g Black (Node (Node tb n Red ta) p Red sl)"
  from assms(1) have t0: "tree_at (ph_mem s) 0 (plug fs G)"
    by (simp add: ph_tree_def G_def)
  have tG: "tree_at (ph_mem s) P G" using tree_at_plug_hole[OF t0] by (simp add: P_def)
  have aP: "ph_aligned P" using hole_parent_aligned[OF t0] by (simp add: P_def)
  have nP: "P \<notin> nodes G" using hole_parent_notin[OF t0] by (simp add: P_def)
  have pre: "g \<noteq> 0" "ph_aligned g" "ph_left (ph_mem s g) = root_of u"
      "ph_parent_color (ph_mem s g) = P OR ph_BLACK" "tree_at (ph_mem s) g u"
      "tree_at (ph_mem s) g (Node (Node tb n Red ta) p Red sl)"
      "n \<noteq> 0" "ph_aligned n"
      "P \<noteq> g" "P \<noteq> p" "P \<noteq> n" "P \<notin> nodes sl" "P \<notin> nodes ta" "P \<notin> nodes tb" "P \<notin> nodes u"
      "g \<noteq> p" "g \<noteq> n" "g \<notin> nodes sl" "g \<notin> nodes ta" "g \<notin> nodes tb" "g \<notin> nodes u"
      "p \<noteq> n" "p \<notin> nodes sl" "p \<notin> nodes ta" "p \<notin> nodes tb" "p \<notin> nodes u"
      "n \<notin> nodes sl" "n \<notin> nodes ta" "n \<notin> nodes tb" "n \<notin> nodes u"
      "nodes sl \<inter> nodes ta = {}" "nodes sl \<inter> nodes tb = {}" "nodes sl \<inter> nodes u = {}"
      "nodes ta \<inter> nodes tb = {}" "nodes ta \<inter> nodes u = {}" "nodes tb \<inter> nodes u = {}"
    using tG nP by (simp_all add: G_def Int_Un_distrib Int_Un_distrib2 Int_commute)
  note c2 = case2_R_mem[where h="ph_mem s" and s=s and ?s1.0=s1 and g=g and p=p and n=n
      and sl=sl and ta=ta and tb=tb and aug=aug and ?u0.0=u0, OF pre(6) assms(2) refl s1]
  have fr1: "\<And>x. x \<noteq> p \<Longrightarrow> x \<noteq> n \<Longrightarrow> x \<notin> nodes ta \<Longrightarrow> ph_mem s1 x = ph_mem s x"
    using c2(5) by blast
  have g1: "ph_mem s1 g = ph_mem s g" using fr1[of g] pre by simp
  have P1: "ph_mem s1 P = ph_mem s P" using fr1[of P] pre by simp
  have u1: "tree_at (ph_mem s1) g u"
  proof (rule tree_at_frame[OF pre(5)])
    show "\<forall>x\<in>nodes u. ph_mem s1 x = ph_mem s x"
      using fr1 pre by (metis disjoint_iff)
  qed
  note c3 = case3_R_gen[where h="ph_mem s1" and s=s1 and ?s1.0=s2 and g=g and p=n
      and t="Node ta p Red sl" and sb=tb
      and u=u and P=P and q=n and aug=aug and ?u0.0=u1]
  have pre3: "ph_left (ph_mem s1 g) = root_of u"
      "ph_parent_color (ph_mem s1 g) = P OR ph_BLACK"
      "ph_right (ph_mem s1 n) = root_of (Node ta p Red sl)"
      "P \<notin> nodes (Node ta p Red sl)" "g \<notin> nodes (Node ta p Red sl)" "n \<notin> nodes (Node ta p Red sl)"
      "nodes (Node ta p Red sl) \<inter> nodes tb = {}" "nodes (Node ta p Red sl) \<inter> nodes u = {}"
      "s2 = fst (insert_case3_R aug s1 u1 g n (root_of tb))"
    using pre g1 c2(2,3) s2 by (simp_all add: Int_Un_distrib Int_Un_distrib2 Int_commute)
  have r1: "tree_at (ph_mem s2) P (Node (Node u g Red tb) n Black (Node ta p Red sl))"
    by (rule c3(1)) (use pre pre3 u1 c2(1,4) assms(3) aP in simp_all)
  have r2: "\<forall>x. x \<noteq> g \<and> x \<noteq> n \<and> x \<notin> nodes tb \<and> (x \<noteq> P \<or> P = 0) \<longrightarrow> ph_mem s2 x = ph_mem s1 x"
    by (rule c3(2)) (use pre pre3 u1 c2(1,4) assms(3) aP in simp_all)
  have r3: "P \<noteq> 0 \<longrightarrow> ph_mem s2 P =
           (if ph_left (ph_mem s1 P) = g then (ph_mem s1 P)\<lparr>ph_left := n\<rparr>
            else (ph_mem s1 P)\<lparr>ph_right := n\<rparr>)"
    by (rule c3(3)) (use pre pre3 u1 c2(1,4) assms(3) aP in simp_all)
  have r4: "ph_root s2 = (if P = 0 then n else ph_root s1)"
    by (rule c3(4)) (use pre pre3 u1 c2(1,4) assms(3) aP in simp_all)
  have r2': "\<And>x. x \<notin> nodes G \<Longrightarrow> x \<noteq> P \<or> P = 0 \<Longrightarrow> ph_mem s2 x = ph_mem s x"
  proof -
    fix x assume x: "x \<notin> nodes G" "x \<noteq> P \<or> P = 0"
    then have "ph_mem s2 x = ph_mem s1 x" using r2 by (simp add: G_def)
    moreover have "ph_mem s1 x = ph_mem s x" using fr1[of x] x by (simp add: G_def)
    ultimately show "ph_mem s2 x = ph_mem s x" by simp
  qed
  have fr: "\<forall>x. x \<notin> nodes G \<longrightarrow> x \<noteq> hole_parent 0 fs \<longrightarrow> ph_mem s2 x = ph_mem s x"
    using r2' by (simp add: P_def)
  have r3': "P \<noteq> 0 \<longrightarrow> ph_mem s2 P =
           (if ph_left (ph_mem s P) = g then (ph_mem s P)\<lparr>ph_left := n\<rparr>
            else (ph_mem s P)\<lparr>ph_right := n\<rparr>)"
    using r3 P1 by simp
  have r4': "ph_root s2 = (if P = 0 then n else ph_root s)"
    using r4 c2(6) by simp
  have "ph_tree s2 (plug fs (Node (Node u g Red tb) n Black (Node ta p Red sl)))"
    by (rule subtree_replaced[where G=G and s=s])
       (use assms(1) r1 r3' r4' fr in \<open>auto simp: G_def P_def\<close>)
  then show "ph_tree s2 (plug fs (Node (Node u g Red tb) n Black (Node ta p Red sl)))" .
  have Pc: "P = 0 \<or> P \<in> ctx_nodes fs" by (cases fs) (auto simp: P_def)
  show "\<forall>x. x \<notin> nodes (plug fs (Node u g Black (Node (Node tb n Red ta) p Red sl))) \<longrightarrow>
           ph_mem s2 x = ph_mem s x"
  proof (intro allI impI)
    fix x assume x: "x \<notin> nodes (plug fs (Node u g Black (Node (Node tb n Red ta) p Red sl)))"
    then have "x \<notin> nodes G" "x \<notin> ctx_nodes fs"
      by (simp_all add: nodes_plug G_def)
    moreover from this Pc have "x \<noteq> P \<or> P = 0" by auto
    ultimately show "ph_mem s2 x = ph_mem s x" using r2' by blast
  qed
qed




lemma case1_mem:
  assumes "ph_parent_color (ph_mem s g) = P OR ph_BLACK" "ph_aligned P"
    "ua \<noteq> g" "p \<noteq> g" "ua \<noteq> p"
    and r: "(s1, par1) = insert_case1 s ua p g"
  shows "par1 = P"
    and "ph_mem s1 = (ph_mem s)
            (ua := (ph_mem s ua)\<lparr>ph_parent_color := g OR ph_BLACK\<rparr>,
             p := (ph_mem s p)\<lparr>ph_parent_color := g OR ph_BLACK\<rparr>,
             g := (ph_mem s g)\<lparr>ph_parent_color := P OR ph_RED\<rparr>)"
    and "ph_root s1 = ph_root s"
proof -
  define h2 where "h2 = (ph_mem s)
            (ua := (ph_mem s ua)\<lparr>ph_parent_color := g OR ph_BLACK\<rparr>,
             p := (ph_mem s p)\<lparr>ph_parent_color := g OR ph_BLACK\<rparr>)"
  have "ph_parent_color (h2 g) = P OR ph_BLACK" using assms by (simp add: h2_def)
  then have pp: "ph_parent h2 g = P" using assms(2) by (rule ph_parent_BLACK)
  have e: "insert_case1 s ua p g =
      (s\<lparr>ph_mem := ph_set_parent_color h2 g (ph_parent h2 g) ph_RED\<rparr>, ph_parent h2 g)"
    using assms(3,4,5) by (simp add: insert_case1_def Let_def ph_set_parent_color_def h2_def)
  show "par1 = P" using r e pp by simp
  show "ph_mem s1 = (ph_mem s)
            (ua := (ph_mem s ua)\<lparr>ph_parent_color := g OR ph_BLACK\<rparr>,
             p := (ph_mem s p)\<lparr>ph_parent_color := g OR ph_BLACK\<rparr>,
             g := (ph_mem s g)\<lparr>ph_parent_color := P OR ph_RED\<rparr>)"
    using r e pp assms(3,4,5) by (simp add: ph_set_parent_color_def h2_def)
  show "ph_root s1 = ph_root s" using r e by simp
qed

lemma case1_L:
  assumes "ph_tree s (plug fs (Node (Node a p Red b) g Black (Node ul ua Red ur)))"
    and r: "(s1, par1) = insert_case1 s ua p g"
  shows "ph_tree s1 (plug fs (Node (Node a p Black b) g Red (Node ul ua Black ur)))"
    and "par1 = hole_parent 0 fs"
    and "\<forall>x. x \<notin> nodes (plug fs (Node (Node a p Red b) g Black (Node ul ua Red ur))) \<longrightarrow>
           ph_mem s1 x = ph_mem s x"
proof -
  define P where "P = hole_parent 0 fs"
  define G where "G = Node (Node a p Red b) g Black (Node ul ua Red ur)"
  from assms(1) have t0: "tree_at (ph_mem s) 0 (plug fs G)"
    by (simp add: ph_tree_def G_def)
  have tG: "tree_at (ph_mem s) P G" using tree_at_plug_hole[OF t0] by (simp add: P_def)
  have aP: "ph_aligned P" using hole_parent_aligned[OF t0] by (simp add: P_def)
  have pre: "ph_parent_color (ph_mem s g) = P OR ph_BLACK" "ua \<noteq> g" "p \<noteq> g" "ua \<noteq> p"
    using tG by (auto simp: G_def)
  note c1 = case1_mem[OF pre(1) aP pre(2,3,4) r]
  show "par1 = hole_parent 0 fs" using c1(1) by (simp add: P_def)
  have fr: "\<forall>x. x \<notin> nodes G \<longrightarrow> ph_mem s1 x = ph_mem s x"
    by (simp add: c1(2) G_def)
  have tG': "tree_at (ph_mem s1) P (Node (Node a p Black b) g Red (Node ul ua Black ur))"
    using tG pre(2,3,4) pre(2,3,4)[symmetric] by (simp add: c1(2) G_def)
  show "ph_tree s1 (plug fs (Node (Node a p Black b) g Red (Node ul ua Black ur)))"
    by (rule subtree_recolored[where G=G and s=s])
       (use assms(1) tG' fr c1(3) in \<open>auto simp: G_def P_def\<close>)
  show "\<forall>x. x \<notin> nodes (plug fs (Node (Node a p Red b) g Black (Node ul ua Red ur))) \<longrightarrow>
           ph_mem s1 x = ph_mem s x"
    using fr by (simp add: nodes_plug G_def)
qed

lemma case1_R:
  assumes "ph_tree s (plug fs (Node (Node ul ua Red ur) g Black (Node a p Red b)))"
    and r: "(s1, par1) = insert_case1 s ua p g"
  shows "ph_tree s1 (plug fs (Node (Node ul ua Black ur) g Red (Node a p Black b)))"
    and "par1 = hole_parent 0 fs"
    and "\<forall>x. x \<notin> nodes (plug fs (Node (Node ul ua Red ur) g Black (Node a p Red b))) \<longrightarrow>
           ph_mem s1 x = ph_mem s x"
proof -
  define P where "P = hole_parent 0 fs"
  define G where "G = Node (Node ul ua Red ur) g Black (Node a p Red b)"
  from assms(1) have t0: "tree_at (ph_mem s) 0 (plug fs G)"
    by (simp add: ph_tree_def G_def)
  have tG: "tree_at (ph_mem s) P G" using tree_at_plug_hole[OF t0] by (simp add: P_def)
  have aP: "ph_aligned P" using hole_parent_aligned[OF t0] by (simp add: P_def)
  have pre: "ph_parent_color (ph_mem s g) = P OR ph_BLACK" "ua \<noteq> g" "p \<noteq> g" "ua \<noteq> p"
    using tG by (auto simp: G_def)
  note c1 = case1_mem[OF pre(1) aP pre(2,3,4) r]
  show "par1 = hole_parent 0 fs" using c1(1) by (simp add: P_def)
  have fr: "\<forall>x. x \<notin> nodes G \<longrightarrow> ph_mem s1 x = ph_mem s x"
    by (simp add: c1(2) G_def)
  have tG': "tree_at (ph_mem s1) P (Node (Node ul ua Black ur) g Red (Node a p Black b))"
    using tG pre(2,3,4) pre(2,3,4)[symmetric] by (simp add: c1(2) G_def)
  show "ph_tree s1 (plug fs (Node (Node ul ua Black ur) g Red (Node a p Black b)))"
    by (rule subtree_recolored[where G=G and s=s])
       (use assms(1) tG' fr c1(3) in \<open>auto simp: G_def P_def\<close>)
  show "\<forall>x. x \<notin> nodes (plug fs (Node (Node ul ua Red ur) g Black (Node a p Red b))) \<longrightarrow>
           ph_mem s1 x = ph_mem s x"
    using fr by (simp add: nodes_plug G_def)
qed




lemma uncle_red:
  "tree_at h g u \<Longrightarrow> ph_aligned g \<Longrightarrow>
   (root_of u \<noteq> 0 \<and> ph_is_red h (root_of u)) = (root_color u = Red)"
proof (cases u)
  case Leaf
  then show ?thesis by simp
next
  case (Node l a c r)
  assume "tree_at h g u" "ph_aligned g"
  then have "a \<noteq> 0" "ph_color h a = color_bit c"
    using Node by (auto simp: ph_color_packed)
  then show ?thesis using Node by (cases c) (simp_all add: ph_is_red_def ph_RED_def ph_BLACK_def)
qed

lemma red_parent_reads:
  assumes "tree_at h g (Node a p Red b)" "ph_aligned g" "g \<noteq> 0"
  shows "p \<noteq> 0" "\<not> ph_is_black h p" "ph_red_parent h p = g"
proof -
  from assms(1) have pc: "ph_parent_color (h p) = g OR ph_RED" and p0: "p \<noteq> 0" by auto
  show "p \<noteq> 0" by (rule p0)
  have "ph_color h p = ph_RED" using ph_color_RED[where h=h and n=p, OF pc assms(2)] .
  then show "\<not> ph_is_black h p" by (simp add: ph_is_black_def ph_RED_def ph_BLACK_def)
  show "ph_red_parent h p = g" using ph_parent_RED[where h=h and n=p, OF pc assms(2)] by (simp add: ph_red_parent_def)
qed

lemma loop_LL:
  assumes "tree_at (ph_mem s) P (Node (Node t p Red sb) g Black u)" "t \<noteq> Leaf"
    "root_color u = Black"
  shows "ph_insert_loop aug s u0 (root_of t) p = Some (insert_case3_L aug s u0 g p (root_of sb))"
proof -
  from assms(1) have g: "g \<noteq> 0" "ph_aligned g" "ph_left (ph_mem s g) = p"
    "ph_right (ph_mem s g) = root_of u" "tree_at (ph_mem s) g u" "p \<notin> nodes u"
    "tree_at (ph_mem s) g (Node t p Red sb)"
    by auto
  from assms(1) have p: "ph_right (ph_mem s p) = root_of sb" "tree_at (ph_mem s) p sb"
    "tree_at (ph_mem s) p t" "nodes t \<inter> nodes sb = {}"
    by auto
  note rp = red_parent_reads[OF g(7) g(2) g(1)]
  have "root_of u = 0 \<or> root_of u \<in> nodes u" using g(5) by (rule root_in_or_null)
  then have pu: "p \<noteq> root_of u" using g(6) rp(1) by auto
  have ur: "(root_of u \<noteq> 0 \<and> ph_is_red (ph_mem s) (root_of u)) = False"
    using uncle_red[OF g(5) g(2)] assms(3) by simp
  have "root_of t \<in> nodes t" "root_of t \<noteq> 0"
    using assms(2) p(3) by (simp_all add: root_of_in_nodes root_of_zero)
  moreover have "root_of sb = 0 \<or> root_of sb \<in> nodes sb" using p(2) by (rule root_in_or_null)
  ultimately have ns: "root_of t \<noteq> root_of sb" using p(4) by auto
  show ?thesis
    using rp g(1,3,4) pu ns p(1) by (subst ph_insert_loop.simps) (simp add: Let_def ur)
qed

lemma loop_LR:
  assumes "tree_at (ph_mem s) P (Node (Node sl p Red (Node ta n Red tb)) g Black u)"
    "root_color u = Black"
  shows "ph_insert_loop aug s u0 n p =
         (let (s1, u1) = insert_case2_L aug s u0 n p
          in Some (insert_case3_L aug s1 u1 g n (ph_right (ph_mem s1 n))))"
proof -
  from assms(1) have g: "g \<noteq> 0" "ph_aligned g" "ph_left (ph_mem s g) = p"
    "ph_right (ph_mem s g) = root_of u" "tree_at (ph_mem s) g u" "p \<notin> nodes u"
    "tree_at (ph_mem s) g (Node sl p Red (Node ta n Red tb))"
    by auto
  from assms(1) have p: "ph_right (ph_mem s p) = n"
    by auto
  note rp = red_parent_reads[OF g(7) g(2) g(1)]
  have "root_of u = 0 \<or> root_of u \<in> nodes u" using g(5) by (rule root_in_or_null)
  then have pu: "p \<noteq> root_of u" using g(6) rp(1) by auto
  have ur: "(root_of u \<noteq> 0 \<and> ph_is_red (ph_mem s) (root_of u)) = False"
    using uncle_red[OF g(5) g(2)] assms(2) by simp
  show ?thesis
    using rp g(1,3,4) pu p(1) by (subst ph_insert_loop.simps) (simp add: Let_def ur)
qed

lemma loop_L1:
  assumes "tree_at (ph_mem s) P (Node (Node a p Red b) g Black (Node ul ua Red ur))"
  shows "ph_insert_loop aug s u0 n p =
         (let (s1, parent1) = insert_case1 s ua p g in ph_insert_loop aug s1 u0 g parent1)"
proof -
  from assms(1) have g: "g \<noteq> 0" "ph_aligned g" "ph_left (ph_mem s g) = p"
    "ph_right (ph_mem s g) = ua" "tree_at (ph_mem s) g (Node ul ua Red ur)" "p \<noteq> ua"
    "tree_at (ph_mem s) g (Node a p Red b)"
    by auto
  note rp = red_parent_reads[OF g(7) g(2) g(1)]
  have ur: "ua \<noteq> 0" "ph_is_red (ph_mem s) ua"
    using uncle_red[OF g(5) g(2)] by simp_all
  show ?thesis
    using rp g(1,3,4,6) ur by (subst ph_insert_loop.simps) (simp add: Let_def)
qed
lemma loop_RR:
  assumes "tree_at (ph_mem s) P (Node u g Black (Node sb p Red t))" "t \<noteq> Leaf"
    "root_color u = Black"
  shows "ph_insert_loop aug s u0 (root_of t) p = Some (insert_case3_R aug s u0 g p (root_of sb))"
proof -
  from assms(1) have g: "g \<noteq> 0" "ph_aligned g" "ph_right (ph_mem s g) = p"
    "ph_left (ph_mem s g) = root_of u" "tree_at (ph_mem s) g u" "p \<notin> nodes u"
    "tree_at (ph_mem s) g (Node sb p Red t)"
    by auto
  from assms(1) have p: "ph_left (ph_mem s p) = root_of sb" "tree_at (ph_mem s) p sb"
    "tree_at (ph_mem s) p t" "nodes t \<inter> nodes sb = {}"
    by auto
  note rp = red_parent_reads[OF g(7) g(2) g(1)]
  have "root_of u = 0 \<or> root_of u \<in> nodes u" using g(5) by (rule root_in_or_null)
  then have pu: "p \<noteq> root_of u" using g(6) rp(1) by auto
  have ur: "(root_of u \<noteq> 0 \<and> ph_is_red (ph_mem s) (root_of u)) = False"
    using uncle_red[OF g(5) g(2)] assms(3) by simp
  have "root_of t \<in> nodes t" "root_of t \<noteq> 0"
    using assms(2) p(3) by (simp_all add: root_of_in_nodes root_of_zero)
  moreover have "root_of sb = 0 \<or> root_of sb \<in> nodes sb" using p(2) by (rule root_in_or_null)
  ultimately have ns: "root_of t \<noteq> root_of sb" using p(4) by auto
  show ?thesis
    using rp g(1,3,4) pu ns p(1) by (subst ph_insert_loop.simps) (simp add: Let_def ur)
qed

lemma loop_RL:
  assumes "tree_at (ph_mem s) P (Node u g Black (Node (Node tb n Red ta) p Red sl))"
    "root_color u = Black"
  shows "ph_insert_loop aug s u0 n p =
         (let (s1, u1) = insert_case2_R aug s u0 n p
          in Some (insert_case3_R aug s1 u1 g n (ph_left (ph_mem s1 n))))"
proof -
  from assms(1) have g: "g \<noteq> 0" "ph_aligned g" "ph_right (ph_mem s g) = p"
    "ph_left (ph_mem s g) = root_of u" "tree_at (ph_mem s) g u" "p \<notin> nodes u"
    "tree_at (ph_mem s) g (Node (Node tb n Red ta) p Red sl)"
    by auto
  from assms(1) have p: "ph_left (ph_mem s p) = n"
    by auto
  note rp = red_parent_reads[OF g(7) g(2) g(1)]
  have "root_of u = 0 \<or> root_of u \<in> nodes u" using g(5) by (rule root_in_or_null)
  then have pu: "p \<noteq> root_of u" using g(6) rp(1) by auto
  have ur: "(root_of u \<noteq> 0 \<and> ph_is_red (ph_mem s) (root_of u)) = False"
    using uncle_red[OF g(5) g(2)] assms(2) by simp
  show ?thesis
    using rp g(1,3,4) pu p(1) by (subst ph_insert_loop.simps) (simp add: Let_def ur)
qed

lemma loop_R1:
  assumes "tree_at (ph_mem s) P (Node (Node ul ua Red ur) g Black (Node a p Red b))"
  shows "ph_insert_loop aug s u0 n p =
         (let (s1, parent1) = insert_case1 s ua p g in ph_insert_loop aug s1 u0 g parent1)"
proof -
  from assms(1) have g: "g \<noteq> 0" "ph_aligned g" "ph_right (ph_mem s g) = p"
    "ph_left (ph_mem s g) = ua" "tree_at (ph_mem s) g (Node ul ua Red ur)" "p \<noteq> ua"
    "tree_at (ph_mem s) g (Node a p Red b)"
    by auto
  note rp = red_parent_reads[OF g(7) g(2) g(1)]
  have ur: "ua \<noteq> 0" "ph_is_red (ph_mem s) ua"
    using uncle_red[OF g(5) g(2)] by simp_all
  show ?thesis
    using rp g(1,3,4,6) ur by (subst ph_insert_loop.simps) (simp add: Let_def)
qed




lemma nodes_paint [simp]: "nodes (paint c t) = nodes t"
  by (cases t) auto

lemma root_color_paint: "t \<noteq> Leaf \<Longrightarrow> root_color (paint c t) = c"
  by (cases t) auto

lemma root_color_paint_Black [simp]: "root_color (paint Black t) = Black"
  by (cases t) auto

lemma no_red_red_paint_Black: "no_red_red t \<Longrightarrow> no_red_red (paint Black t)"
  by (cases t) auto

lemma ctx_ok_tl: "ctx_ok (g # fs) \<Longrightarrow> ctx_ok fs"
  by (cases fs) auto

lemma no_red_red_plug1_Black:
  "no_red_red t \<Longrightarrow> no_red_red (sibling f) \<Longrightarrow> no_red_red (paint Black (plug1 f t))"
  by (cases f) auto

lemma ctx_ok_sibling: "ctx_ok (f # fs) \<Longrightarrow> no_red_red (sibling f)"
  by (cases fs) auto

lemma insert_inv_case1:
  assumes "insert_inv (f # g # fs) t"
  shows "insert_inv fs (case1 f g t)"
proof -
  from assms have t: "no_red_red t" and c: "ctx_ok (f # g # fs)"
    by (simp_all add: insert_inv_def)
  have sf: "no_red_red (sibling f)" using c by simp
  have sg: "no_red_red (sibling g)" using c ctx_ok_sibling[of g fs] by simp
  have fs: "ctx_ok fs" using c ctx_ok_tl[of g fs] by simp
  have p: "no_red_red (paint Black (plug1 f t))" using t sf by (rule no_red_red_plug1_Black)
  show ?thesis
  proof (cases g)
    case (Left_of ga gc u)
    then show ?thesis using p sg fs by (simp add: insert_inv_def no_red_red_paint_Black)
  next
    case (Right_of u ga gc)
    then show ?thesis using p sg fs by (simp add: insert_inv_def no_red_red_paint_Black)
  qed
qed

lemma nodes_case1: "nodes (case1 f g t) = nodes (plug1 g (plug1 f t))"
  by (cases g; cases f) auto

lemma black_parent_reads:
  assumes "tree_at h g (plug1 f t)" "ph_aligned g" "frame_color f = Black"
  shows "frame_addr f \<noteq> 0" "ph_is_black h (frame_addr f)"
proof -
  from assms(1,3) have pc: "ph_parent_color (h (frame_addr f)) = g OR ph_BLACK"
    and p0: "frame_addr f \<noteq> 0" by (cases f; auto)+
  show "frame_addr f \<noteq> 0" by (rule p0)
  show "ph_is_black h (frame_addr f)"
    using ph_color_BLACK[where h=h and n="frame_addr f", OF pc assms(2)]
    by (simp add: ph_is_black_def)
qed




lemma insert_loop_correct:
  assumes "ph_tree s (plug fs t)" "insert_inv fs t"
  shows "\<exists>s' u'. ph_insert_loop aug s u (root_of t) (hole_parent 0 fs) = Some (s', u') \<and>
           ph_tree s' (insert_fixup fs t) \<and>
           (\<forall>x. x \<notin> nodes (plug fs t) \<longrightarrow> ph_mem s' x = ph_mem s x)"
  using assms
proof (induction fs t arbitrary: s u rule: insert_fixup.induct)
  case (1 t)
  then obtain ta n tb where t: "t = Node ta n Red tb"
    by (cases t) (auto simp: insert_inv_def)
  from 1 t have tr: "tree_at (ph_mem s) 0 (Node ta n Red tb)" and r: "ph_root s = n"
    by (simp_all add: ph_tree_def)
  have "ph_insert_loop aug s u n 0 =
        Some (s\<lparr>ph_mem := ph_set_parent_color (ph_mem s) n 0 ph_BLACK\<rparr>, u)"
    by (subst ph_insert_loop.simps) simp
  moreover have "ph_tree (s\<lparr>ph_mem := ph_set_parent_color (ph_mem s) n 0 ph_BLACK\<rparr>)
       (Node ta n Black tb)"
    using tr r by (simp add: ph_tree_def ph_set_parent_color_def)
  ultimately show ?case using t by (simp add: ph_set_parent_color_def)
next
  case (2 f t)
  then have fb: "frame_color f = Black" by (simp add: insert_inv_def)
  from 2 have "tree_at (ph_mem s) 0 (plug1 f t)" by (simp add: ph_tree_def)
  note bp = black_parent_reads[OF this _ fb]
  have "ph_insert_loop aug s u (root_of t) (frame_addr f) = Some (s, u)"
    using bp by (subst ph_insert_loop.simps) simp
  then show ?case using 2 by simp
next
  case (3 f g fs t)
  then obtain ta n tb where t: "t = Node ta n Red tb"
    by (cases t) (auto simp: insert_inv_def)
  from 3 have inv: "no_red_red t" "ctx_ok (f # g # fs)"
    by (simp_all add: insert_inv_def)
  from 3 have tree: "ph_tree s (plug fs (plug1 g (plug1 f t)))" by simp
  then have t0: "tree_at (ph_mem s) 0 (plug fs (plug1 g (plug1 f t)))"
    by (simp add: ph_tree_def)
  define P where "P = hole_parent 0 fs"
  have tG: "tree_at (ph_mem s) P (plug1 g (plug1 f t))"
    using tree_at_plug_hole[OF t0] by (simp add: P_def)
  have aP: "ph_aligned P" using hole_parent_aligned[OF t0] by (simp add: P_def)
  have tF: "tree_at (ph_mem s) (frame_addr g) (plug1 f t)" and ag: "ph_aligned (frame_addr g)"
    using tG by (cases g; auto)+
  have nd: "nodes (plug (f # g # fs) t) = nodes (plug fs (plug1 g (plug1 f t)))" by simp
  show ?case
  proof (cases "frame_color f = Black")
    case True
    note bp = black_parent_reads[OF tF ag True]
    have "ph_insert_loop aug s u (root_of t) (frame_addr f) = Some (s, u)"
      using bp by (subst ph_insert_loop.simps) simp
    then show ?thesis using 3 True by simp
  next
    case False
    then have fr: "frame_color f = Red" by (cases "frame_color f") auto
    with inv have gb: "frame_color g = Black" and sfb: "root_color (sibling f) = Black"
      by auto
    have tab: "root_color ta = Black" "root_color tb = Black"
      using inv(1) t by auto
    show ?thesis
    proof (cases "root_color (sibling g) = Red")
      case True
      then obtain ul ua ur where u: "sibling g = Node ul ua Red ur"
        by (cases "sibling g") auto
      obtain a p b where pf: "plug1 f t = Node a p Red b" "p = frame_addr f"
        using fr by (cases f) auto
      have inv': "insert_inv fs (case1 f g t)" using "3.prems"(2) by (rule insert_inv_case1)
      have fx: "insert_fixup (f # g # fs) t = insert_fixup fs (case1 f g t)"
        using False True by simp
      obtain s1 par1 where r: "(s1, par1) = insert_case1 s ua p (frame_addr g)"
        by (metis surj_pair)
      have step: "ph_insert_loop aug s u n p = ph_insert_loop aug s1 u (frame_addr g) par1 \<and>
                  ph_tree s1 (plug fs (case1 f g t)) \<and> par1 = hole_parent 0 fs \<and>
                  (\<forall>x. x \<notin> nodes (plug fs (plug1 g (plug1 f t))) \<longrightarrow> ph_mem s1 x = ph_mem s x)"
      proof (cases g)
        case (Left_of ga gc uu)
        then have G: "plug1 g (plug1 f t) = Node (Node a p Red b) ga Black (Node ul ua Red ur)"
          and C: "case1 f g t = Node (Node a p Black b) ga Red (Node ul ua Black ur)"
          using u pf gb by simp_all
        have "ph_insert_loop aug s u n p =
              (let (s1, parent1) = insert_case1 s ua p ga in ph_insert_loop aug s1 u ga parent1)"
          using tG by (intro loop_L1[where P=P]) (simp only: G)
        then have l: "ph_insert_loop aug s u n p = ph_insert_loop aug s1 u (frame_addr g) par1"
          using r[symmetric] Left_of by simp
        have tree': "ph_tree s (plug fs (Node (Node a p Red b) ga Black (Node ul ua Red ur)))"
          using tree by (simp only: G)
        have r': "(s1, par1) = insert_case1 s ua p ga" using r Left_of by simp
        note c = case1_L[OF tree' r']
        have "ph_tree s1 (plug fs (case1 f g t))" using c(1) by (simp only: C)
        moreover have "\<forall>x. x \<notin> nodes (plug fs (plug1 g (plug1 f t))) \<longrightarrow> ph_mem s1 x = ph_mem s x"
          using c(3) by (simp only: G)
        ultimately show ?thesis using l c(2) by simp
      next
        case (Right_of uu ga gc)
        then have G: "plug1 g (plug1 f t) = Node (Node ul ua Red ur) ga Black (Node a p Red b)"
          and C: "case1 f g t = Node (Node ul ua Black ur) ga Red (Node a p Black b)"
          using u pf gb by simp_all
        have "ph_insert_loop aug s u n p =
              (let (s1, parent1) = insert_case1 s ua p ga in ph_insert_loop aug s1 u ga parent1)"
          using tG by (intro loop_R1[where P=P]) (simp only: G)
        then have l: "ph_insert_loop aug s u n p = ph_insert_loop aug s1 u (frame_addr g) par1"
          using r[symmetric] Right_of by simp
        have tree': "ph_tree s (plug fs (Node (Node ul ua Red ur) ga Black (Node a p Red b)))"
          using tree by (simp only: G)
        have r': "(s1, par1) = insert_case1 s ua p ga" using r Right_of by simp
        note c = case1_R[OF tree' r']
        have "ph_tree s1 (plug fs (case1 f g t))" using c(1) by (simp only: C)
        moreover have "\<forall>x. x \<notin> nodes (plug fs (plug1 g (plug1 f t))) \<longrightarrow> ph_mem s1 x = ph_mem s x"
          using c(3) by (simp only: G)
        ultimately show ?thesis using l c(2) by simp
      qed
      have rc: "root_of (case1 f g t) = frame_addr g" by (cases g) auto
      from "3.IH"[OF False True, of s1 u] step inv' rc
      obtain s' u' where
        "ph_insert_loop aug s1 u (frame_addr g) (hole_parent 0 fs) = Some (s', u')"
        "ph_tree s' (insert_fixup fs (case1 f g t))"
        "\<forall>x. x \<notin> nodes (plug fs (case1 f g t)) \<longrightarrow> ph_mem s' x = ph_mem s1 x"
        by auto
      moreover have "nodes (plug fs (case1 f g t)) = nodes (plug fs (plug1 g (plug1 f t)))"
        by (simp add: nodes_plug nodes_case1)
      ultimately show ?thesis
        using step fx t pf(2) nd by (intro exI[of _ s'] exI[of _ u']) simp
    next
      case ub: False
      then have ubl: "root_color (sibling g) = Black" by (cases "root_color (sibling g)") auto
      show ?thesis
      proof (cases g)
        case gl: (Left_of ga gc uu)
        show ?thesis
        proof (cases f)
          case fl: (Left_of p pc sb)
          have G: "plug1 g (plug1 f t) = Node (Node t p Red sb) ga Black uu"
            using gl fl fr gb by simp
          have fx: "insert_fixup (f # g # fs) t = plug fs (Node t p Black (Node sb ga Red uu))"
            using gl fl fr gb ub by simp
          have l: "ph_insert_loop aug s u (root_of t) p =
                   Some (insert_case3_L aug s u ga p (root_of sb))"
          proof (rule loop_LL[where P=P])
            show "tree_at (ph_mem s) P (Node (Node t p Red sb) ga Black uu)" using tG by (simp only: G)
            show "t \<noteq> Leaf" using t by simp
            show "root_color uu = Black" using ubl gl by simp
          qed
          obtain s' u' where r: "insert_case3_L aug s u ga p (root_of sb) = (s', u')"
            by (metis surj_pair)
          have tree': "ph_tree s (plug fs (Node (Node t p Red sb) ga Black uu))" using tree by (simp only: G)
          have sb': "root_color sb = Black" using sfb fl by simp
          have r': "s' = fst (insert_case3_L aug s u ga p (root_of sb))" using r by simp
          note rot = rot_LL[OF tree' sb' r']
          have "ph_tree s' (plug fs (Node t p Black (Node sb ga Red uu)))" by (rule rot(1))
          moreover have "\<forall>x. x \<notin> nodes (plug fs (Node (Node t p Red sb) ga Black uu)) \<longrightarrow>
              ph_mem s' x = ph_mem s x" by (rule rot(2))
          ultimately show ?thesis
            using l r fx fl G nd by (intro exI[of _ s'] exI[of _ u']) simp
        next
          case frt: (Right_of sl p pc)
          have G: "plug1 g (plug1 f t) = Node (Node sl p Red (Node ta n Red tb)) ga Black uu"
            using gl frt fr gb t by simp
          have fx: "insert_fixup (f # g # fs) t =
                     plug fs (Node (Node sl p Red ta) n Black (Node tb ga Red uu))"
            using gl frt fr gb ub t by simp
          obtain s1 u1 where r1: "insert_case2_L aug s u n p = (s1, u1)"
            by (metis surj_pair)
          obtain s' u' where r: "insert_case3_L aug s1 u1 ga n (ph_right (ph_mem s1 n)) = (s', u')"
            by (metis surj_pair)
          have tG': "tree_at (ph_mem s) P (Node (Node sl p Red (Node ta n Red tb)) ga Black uu)"
            using tG by (simp only: G)
          have ubl': "root_color uu = Black" using ubl gl by simp
          have l: "ph_insert_loop aug s u n p = Some (s', u')"
            using loop_LR[where aug=aug and ?u0.0=u, OF tG' ubl'] r1 r by simp
          have tree': "ph_tree s (plug fs (Node (Node sl p Red (Node ta n Red tb)) ga Black uu))" using tree by (simp only: G)
          have r1': "s1 = fst (insert_case2_L aug s u n p)" using r1 by simp
          have r': "s' = fst (insert_case3_L aug s1 u1 ga n (ph_right (ph_mem s1 n)))" using r by simp
          note rot = rot_LR[OF tree' tab(1) tab(2) r1' r']
          have "ph_tree s' (plug fs (Node (Node sl p Red ta) n Black (Node tb ga Red uu)))" by (rule rot(1))
          moreover have "\<forall>x. x \<notin> nodes (plug fs (Node (Node sl p Red (Node ta n Red tb)) ga Black uu)) \<longrightarrow>
              ph_mem s' x = ph_mem s x" by (rule rot(2))
          ultimately show ?thesis
            using l fx frt G nd t by (intro exI[of _ s'] exI[of _ u']) simp
        qed
      next
        case gr: (Right_of uu ga gc)
        show ?thesis
        proof (cases f)
          case frt: (Right_of sb p pc)
          have G: "plug1 g (plug1 f t) = Node uu ga Black (Node sb p Red t)"
            using gr frt fr gb by simp
          have fx: "insert_fixup (f # g # fs) t = plug fs (Node (Node uu ga Red sb) p Black t)"
            using gr frt fr gb ub by simp
          have l: "ph_insert_loop aug s u (root_of t) p =
                   Some (insert_case3_R aug s u ga p (root_of sb))"
          proof (rule loop_RR[where P=P])
            show "tree_at (ph_mem s) P (Node uu ga Black (Node sb p Red t))" using tG by (simp only: G)
            show "t \<noteq> Leaf" using t by simp
            show "root_color uu = Black" using ubl gr by simp
          qed
          obtain s' u' where r: "insert_case3_R aug s u ga p (root_of sb) = (s', u')"
            by (metis surj_pair)
          have tree': "ph_tree s (plug fs (Node uu ga Black (Node sb p Red t)))" using tree by (simp only: G)
          have sb': "root_color sb = Black" using sfb frt by simp
          have r': "s' = fst (insert_case3_R aug s u ga p (root_of sb))" using r by simp
          note rot = rot_RR[OF tree' sb' r']
          have "ph_tree s' (plug fs (Node (Node uu ga Red sb) p Black t))" by (rule rot(1))
          moreover have "\<forall>x. x \<notin> nodes (plug fs (Node uu ga Black (Node sb p Red t))) \<longrightarrow>
              ph_mem s' x = ph_mem s x" by (rule rot(2))
          ultimately show ?thesis
            using l r fx frt G nd by (intro exI[of _ s'] exI[of _ u']) simp
        next
          case fl: (Left_of p pc sl)
          have G: "plug1 g (plug1 f t) = Node uu ga Black (Node (Node ta n Red tb) p Red sl)"
            using gr fl fr gb t by simp
          have fx: "insert_fixup (f # g # fs) t =
                     plug fs (Node (Node uu ga Red ta) n Black (Node tb p Red sl))"
            using gr fl fr gb ub t by simp
          obtain s1 u1 where r1: "insert_case2_R aug s u n p = (s1, u1)"
            by (metis surj_pair)
          obtain s' u' where r: "insert_case3_R aug s1 u1 ga n (ph_left (ph_mem s1 n)) = (s', u')"
            by (metis surj_pair)
          have tG': "tree_at (ph_mem s) P (Node uu ga Black (Node (Node ta n Red tb) p Red sl))"
            using tG by (simp only: G)
          have ubl': "root_color uu = Black" using ubl gr by simp
          have l: "ph_insert_loop aug s u n p = Some (s', u')"
            using loop_RL[where aug=aug and ?u0.0=u, OF tG' ubl'] r1 r by simp
          have tree': "ph_tree s (plug fs (Node uu ga Black (Node (Node ta n Red tb) p Red sl)))" using tree by (simp only: G)
          have r1': "s1 = fst (insert_case2_R aug s u n p)" using r1 by simp
          have r': "s' = fst (insert_case3_R aug s1 u1 ga n (ph_left (ph_mem s1 n)))" using r by simp
          note rot = rot_RL[OF tree' tab(2) tab(1) r1' r']
          have "ph_tree s' (plug fs (Node (Node uu ga Red ta) n Black (Node tb p Red sl)))" by (rule rot(1))
          moreover have "\<forall>x. x \<notin> nodes (plug fs (Node uu ga Black (Node (Node ta n Red tb) p Red sl))) \<longrightarrow>
              ph_mem s' x = ph_mem s x" by (rule rot(2))
          ultimately show ?thesis
            using l fx fl G nd t by (intro exI[of _ s'] exI[of _ u']) simp
        qed
      qed
    qed
  qed
qed

lemma no_red_red_plug_hole: "no_red_red (plug fs t) \<Longrightarrow> no_red_red t"
proof (induction fs arbitrary: t)
  case Nil
  then show ?case by simp
next
  case (Cons f fs)
  then have "no_red_red (plug1 f t)" by simp
  then show ?case by (cases f) auto
qed

lemma root_color_plug1 [simp]: "root_color (plug1 f t) = frame_color f"
  by (cases f) auto

lemma no_red_red_plug1:
  "no_red_red (plug1 f t) \<Longrightarrow>
   no_red_red (sibling f) \<and> (frame_color f = Black \<or> root_color (sibling f) = Black)"
  by (cases f) auto

lemma rb_ctx_ok:
  "no_red_red (plug fs t) \<Longrightarrow> root_color (plug fs t) = Black \<Longrightarrow> fs \<noteq> [] \<Longrightarrow> ctx_ok fs"
proof (induction fs arbitrary: t)
  case Nil
  then show ?case by simp
next
  case (Cons f fs)
  show ?case
  proof (cases fs)
    case Nil
    then show ?thesis using Cons.prems no_red_red_plug1[of f t] by simp
  next
    case (Cons g gs)
    have ih: "ctx_ok (g # gs)" using Cons.IH[of "plug1 f t"] Cons.prems Cons by simp
    have "no_red_red (plug1 g (plug1 f t))"
      using Cons.prems(1) Cons no_red_red_plug_hole[of gs "plug1 g (plug1 f t)"] by simp
    then have g: "frame_color g = Black \<or> frame_color f = Black" and f: "no_red_red (plug1 f t)"
      by (cases g; auto)+
    show ?thesis using ih g no_red_red_plug1[OF f] Cons by auto
  qed
qed

text \<open>
  C4. Let the tree before the insert satisfy the red-black invariants, and let the node be
  linked as a RED leaf at some position of it. Then \<^verbatim>\<open>__ph_insert\<close> returns, whatever the
  rotate callback is, and the state it leaves holds the tree that the case analysis
  \<open>insert_fixup\<close> gives: the node recoloured BLACK when it has no parent; no change under a
  BLACK parent; under a RED parent with a RED uncle the colour flips and the same analysis
  at the grandparent; under a RED parent with an uncle that is not RED the rotation at the
  parent for an inner grandchild, then the rotation at the grandparent with the
  recolouring. Memory outside the tree is not touched.
\<close>

theorem ph_insert_case_analysis:
  assumes "rb_tree (plug fs Leaf)" "ph_tree s (plug fs (Node Leaf node Red Leaf))"
  shows "\<exists>s' u'. ph_insert augment_rotate s u node = Some (s', u') \<and>
           ph_tree s' (insert_fixup fs (Node Leaf node Red Leaf)) \<and>
           (\<forall>x. x \<notin> nodes (plug fs (Node Leaf node Red Leaf)) \<longrightarrow> ph_mem s' x = ph_mem s x)"
proof -
  have c: "ctx_ok fs"
  proof (cases "fs = []")
    case True
    then show ?thesis by simp
  next
    case False
    then show ?thesis using assms(1) rb_ctx_ok[of fs Leaf] by (simp add: rb_tree_def)
  qed
  then have inv: "insert_inv fs (Node Leaf node Red Leaf)" by (simp add: insert_inv_def)
  from assms(2) have t0: "tree_at (ph_mem s) 0 (plug fs (Node Leaf node Red Leaf))"
    by (simp add: ph_tree_def)
  have tn: "tree_at (ph_mem s) (hole_parent 0 fs) (Node Leaf node Red Leaf)"
    using tree_at_plug_hole[OF t0] .
  have aP: "ph_aligned (hole_parent 0 fs)" using hole_parent_aligned[OF t0] by simp
  have pc: "ph_parent_color (ph_mem s node) = hole_parent 0 fs OR ph_RED" and n0: "node \<noteq> 0"
    using tn by auto
  have "ph_red_parent (ph_mem s) node = hole_parent 0 fs"
    using ph_parent_RED[where h="ph_mem s" and n=node, OF pc aP] by (simp add: ph_red_parent_def)
  then have "ph_insert augment_rotate s u node =
             ph_insert_loop augment_rotate s u (root_of (Node Leaf node Red Leaf)) (hole_parent 0 fs)"
    using n0 by (simp add: ph_insert_def)
  then show ?thesis
    using insert_loop_correct[OF assms(2) inv, of augment_rotate u] by simp
qed

theorem ph_insert_case_analysis_witness:
  "rb_tree (plug chain_ctx Leaf) \<and>
   ph_tree chain_state (plug chain_ctx (Node Leaf 24 Red Leaf)) \<and>
   (\<exists>s' u'. ph_insert dummy_rotate chain_state () 24 = Some (s', u') \<and>
      ph_tree s' (Node (Node Leaf 8 Red Leaf) 16 Black (Node Leaf 24 Red Leaf)))"
proof -
  have a: "rb_tree (plug chain_ctx Leaf)"
    by (simp add: chain_ctx_def rb_tree_def)
  have b: "ph_tree chain_state (plug chain_ctx (Node Leaf 24 Red Leaf))"
    by (simp add: chain_ctx_def chain_state_def ph_tree_def ph_aligned_def ph_RED_def ph_BLACK_def)
  have c: "insert_fixup chain_ctx (Node Leaf 24 Red Leaf) =
           Node (Node Leaf 8 Red Leaf) 16 Black (Node Leaf 24 Red Leaf)"
    by (simp add: chain_ctx_def)
  show ?thesis
    using ph_insert_case_analysis [OF a b, of dummy_rotate "()"] a b c by auto
qed

section \<open>Insert fixup restores the invariants\<close>

lemma balanced_plug_hole: "black_balanced (plug fs t) \<Longrightarrow> black_balanced t"
proof (induction fs arbitrary: t)
  case Nil
  then show ?case by simp
next
  case (Cons f fs)
  then have "black_balanced (plug1 f t)" by simp
  then show ?case by (cases f) auto
qed

lemma balanced_plug1:
  "black_balanced (plug1 f t) \<Longrightarrow> black_balanced t' \<Longrightarrow> black_height t' = black_height t \<Longrightarrow>
   black_balanced (plug1 f t') \<and> black_height (plug1 f t') = black_height (plug1 f t)"
  by (cases f) auto

lemma balanced_plug:
  "black_balanced (plug fs t) \<Longrightarrow> black_balanced t' \<Longrightarrow> black_height t' = black_height t \<Longrightarrow>
   black_balanced (plug fs t')"
proof (induction fs arbitrary: t t')
  case Nil
  then show ?case by simp
next
  case (Cons f fs)
  have "black_balanced (plug1 f t)"
    using Cons.prems(1) balanced_plug_hole[of fs "plug1 f t"] by simp
  then have "black_balanced (plug1 f t') \<and> black_height (plug1 f t') = black_height (plug1 f t)"
    using Cons.prems(2,3) by (rule balanced_plug1)
  then show ?case using Cons.IH[of "plug1 f t" "plug1 f t'"] Cons.prems(1) by simp
qed

lemma no_red_red_plug:
  "ctx_ok fs \<Longrightarrow> no_red_red t \<Longrightarrow>
   fs = [] \<or> frame_color (hd fs) = Black \<or> root_color t = Black \<Longrightarrow>
   no_red_red (plug fs t) \<and> (fs \<noteq> [] \<longrightarrow> root_color (plug fs t) = Black)"
proof (induction fs arbitrary: t)
  case Nil
  then show ?case by simp
next
  case (Cons f fs)
  have sf: "no_red_red (sibling f)" using Cons.prems(1) by (rule ctx_ok_sibling)
  show ?case
  proof (cases fs)
    case Nil
    then have "frame_color f = Black" using Cons.prems(1) by simp
    then show ?thesis using Nil sf Cons.prems(2) by (cases f) auto
  next
    case (Cons g gs)
    then have c: "frame_color f = Black \<or> root_color (sibling f) = Black \<and> frame_color g = Black"
      and ok: "ctx_ok fs"
      using Cons.prems(1) by auto
    have "no_red_red (plug1 f t)"
      using c sf Cons.prems(2,3) by (cases f) auto
    moreover have "fs = [] \<or> frame_color (hd fs) = Black \<or> root_color (plug1 f t) = Black"
      using c Cons by auto
    ultimately show ?thesis using Cons.IH[of "plug1 f t"] ok Cons by simp
  qed
qed

lemma black_balanced_paint [simp]: "black_balanced (paint c t) = black_balanced t"
  by (cases t) auto

lemma black_height_paint_Black:
  "root_color t = Red \<Longrightarrow> black_height (paint Black t) = Suc (black_height t)"
  by (cases t) auto

lemma insert_fixup_rb:
  "insert_inv fs t \<Longrightarrow> black_balanced (plug fs t) \<Longrightarrow> rb_tree (insert_fixup fs t)"
proof (induction fs t rule: insert_fixup.induct)
  case (1 t)
  then show ?case by (cases t) (auto simp: insert_inv_def rb_tree_def)
next
  case (2 f t)
  then have "no_red_red (plug [f] t) \<and> root_color (plug [f] t) = Black"
    using no_red_red_plug[of "[f]" t] by (simp add: insert_inv_def)
  then show ?case using 2 by (simp add: rb_tree_def)
next
  case (3 f g fs t)
  from "3.prems" obtain ta n tb where t: "t = Node ta n Red tb"
    by (cases t) (auto simp: insert_inv_def)
  from "3.prems" have inv: "no_red_red t" "ctx_ok (f # g # fs)"
    by (simp_all add: insert_inv_def)
  have ok: "ctx_ok fs" using inv(2) ctx_ok_tl[of g fs] by simp
  have balG: "black_balanced (plug1 g (plug1 f t))"
    using "3.prems"(2) balanced_plug_hole[of fs "plug1 g (plug1 f t)"] by simp
  have sib: "no_red_red (sibling f)" "no_red_red (sibling g)"
    using inv(2) ctx_ok_sibling[of g fs] by simp_all
  show ?case
  proof (cases "frame_color f = Black")
    case True
    have "no_red_red (plug (f # g # fs) t) \<and> root_color (plug (f # g # fs) t) = Black"
      using no_red_red_plug[of "f # g # fs" t] inv True by simp
    then show ?thesis using "3.prems"(2) True by (simp add: rb_tree_def)
  next
    case False
    then have fr: "frame_color f = Red" by (cases "frame_color f") auto
    with inv have gb: "frame_color g = Black" and sfb: "root_color (sibling f) = Black"
      by auto
    have tab: "root_color ta = Black" "root_color tb = Black" "no_red_red ta" "no_red_red tb"
      using inv(1) t by auto
    show ?thesis
    proof (cases "root_color (sibling g) = Red")
      case True
      have "black_balanced (case1 f g t) \<and>
            black_height (case1 f g t) = black_height (plug1 g (plug1 f t))"
        using balG fr gb True by (cases g; cases f) (auto simp: black_height_paint_Black)
      then have "black_balanced (plug fs (case1 f g t))"
        using balanced_plug[of fs "plug1 g (plug1 f t)" "case1 f g t"] "3.prems"(2) by simp
      then show ?thesis
        using "3.IH"[OF False True] insert_inv_case1[OF "3.prems"(1)] False True by simp
    next
      case ub: False
      then have ubl: "root_color (sibling g) = Black" by (cases "root_color (sibling g)") auto
      define G' where "G' =
        (case (g, f) of
           (Left_of _ _ _, Left_of _ _ _) \<Rightarrow> case3_left (plug1 g (plug1 f t))
         | (Left_of _ _ _, Right_of _ _ _) \<Rightarrow> case3_left (plug1 g (rotate_left (plug1 f t)))
         | (Right_of _ _ _, Right_of _ _ _) \<Rightarrow> case3_right (plug1 g (plug1 f t))
         | (Right_of _ _ _, Left_of _ _ _) \<Rightarrow> case3_right (plug1 g (rotate_right (plug1 f t))))"
      have res: "insert_fixup (f # g # fs) t = plug fs G'"
        using False ub by (cases g; cases f) (simp_all add: G'_def)
      have G': "root_color G' = Black \<and> no_red_red G' \<and> black_balanced G' \<and>
                black_height G' = black_height (plug1 g (plug1 f t))"
        using balG fr gb sfb ubl tab sib t by (cases g; cases f) (auto simp: G'_def)
      have "black_balanced (plug fs G')"
        using balanced_plug[of fs "plug1 g (plug1 f t)" G'] "3.prems"(2) G' by simp
      moreover have "no_red_red (plug fs G') \<and> (fs \<noteq> [] \<longrightarrow> root_color (plug fs G') = Black)"
        using no_red_red_plug[of fs G'] ok G' by simp
      moreover have "fs = [] \<longrightarrow> root_color (plug fs G') = Black" using G' by simp
      ultimately show ?thesis using res by (auto simp: rb_tree_def)
    qed
  qed
qed

lemma nodes_rotate_left [simp]: "nodes (rotate_left t) = nodes t"
  by (induction t rule: rotate_left.induct) auto

lemma nodes_rotate_right [simp]: "nodes (rotate_right t) = nodes t"
  by (induction t rule: rotate_right.induct) auto

lemma nodes_case3_left [simp]: "nodes (case3_left t) = nodes t"
proof -
  have "\<And>X. nodes (case X of Node a p _ (Node b g' _ u) \<Rightarrow> Node a p Black (Node b g' Red u)
                          | t \<Rightarrow> t) = nodes X"
    by (auto split: tree.splits)
  then have "nodes (case3_left t) = nodes (rotate_right t)" by simp
  then show ?thesis by simp
qed

lemma nodes_case3_right [simp]: "nodes (case3_right t) = nodes t"
proof -
  have "\<And>X. nodes (case X of Node (Node u g' _ b) p _ c \<Rightarrow> Node (Node u g' Red b) p Black c
                          | t \<Rightarrow> t) = nodes X"
    by (auto split: tree.splits)
  then have "nodes (case3_right t) = nodes (rotate_left t)" by simp
  then show ?thesis by simp
qed

lemma nodes_insert_fixup: "nodes (insert_fixup fs t) = nodes (plug fs t)"
proof (induction fs t rule: insert_fixup.induct)
  case (1 t)
  then show ?case by simp
next
  case (2 f t)
  then show ?case by simp
next
  case (3 f g fs t)
  show ?case
  proof (cases "frame_color f = Black")
    case True
    then show ?thesis by simp
  next
    case False
    show ?thesis
    proof (cases "root_color (sibling g) = Red")
      case True
      then show ?thesis using 3 False by (simp add: nodes_plug nodes_case1)
    next
      case ub: False
      then show ?thesis using False
        by (cases g; cases f) (simp_all add: nodes_plug del: case3_left.simps case3_right.simps)
    qed
  qed
qed

lemma insert_entry:
  assumes "ph_tree s (plug fs (Node Leaf node Red Leaf))" "ctx_ok fs"
  shows "ph_insert aug s u node =
         ph_insert_loop aug s u (root_of (Node Leaf node Red Leaf)) (hole_parent 0 fs)"
proof -
  from assms(1) have t0: "tree_at (ph_mem s) 0 (plug fs (Node Leaf node Red Leaf))"
    by (simp add: ph_tree_def)
  have tn: "tree_at (ph_mem s) (hole_parent 0 fs) (Node Leaf node Red Leaf)"
    using tree_at_plug_hole[OF t0] .
  have aP: "ph_aligned (hole_parent 0 fs)" using hole_parent_aligned[OF t0] by simp
  have pc: "ph_parent_color (ph_mem s node) = hole_parent 0 fs OR ph_RED" and n0: "node \<noteq> 0"
    using tn by auto
  have "ph_red_parent (ph_mem s) node = hole_parent 0 fs"
    using ph_parent_RED[where h="ph_mem s" and n=node, OF pc aP] by (simp add: ph_red_parent_def)
  then show ?thesis using n0 by (simp add: ph_insert_def)
qed

text \<open>
  With the node linked as a RED leaf into a tree that satisfies the red-black invariants,
  \<^verbatim>\<open>__ph_insert\<close> returns and leaves a tree that satisfies them again: the root is BLACK, no
  RED node has a RED child, and all paths to an absent child pass the same number of BLACK
  nodes. Its nodes are the old ones and the new node.
\<close>

theorem ph_insert_restores_invariants:
  assumes "rb_tree (plug fs Leaf)" "ph_tree s (plug fs (Node Leaf node Red Leaf))"
  shows "\<exists>s' u' t'. ph_insert augment_rotate s u node = Some (s', u') \<and> ph_tree s' t' \<and>
           rb_tree t' \<and> nodes t' = insert node (nodes (plug fs Leaf))"
proof -
  have c: "ctx_ok fs"
  proof (cases "fs = []")
    case True
    then show ?thesis by simp
  next
    case False
    then show ?thesis using assms(1) rb_ctx_ok[of fs Leaf] by (simp add: rb_tree_def)
  qed
  then have inv: "insert_inv fs (Node Leaf node Red Leaf)" by (simp add: insert_inv_def)
  have "black_balanced (plug fs (Node Leaf node Red Leaf))"
    using balanced_plug[of fs Leaf "Node Leaf node Red Leaf"] assms(1) by (simp add: rb_tree_def)
  then have rb: "rb_tree (insert_fixup fs (Node Leaf node Red Leaf))"
    using inv by (intro insert_fixup_rb)
  from insert_entry[OF assms(2) c, of augment_rotate u]
    insert_loop_correct[OF assms(2) inv, of augment_rotate u]
  obtain s' u' where
    r: "ph_insert augment_rotate s u node = Some (s', u')"
       "ph_tree s' (insert_fixup fs (Node Leaf node Red Leaf))"
    by auto
  have "nodes (insert_fixup fs (Node Leaf node Red Leaf)) = nodes (plug fs (Node Leaf node Red Leaf))"
    by (rule nodes_insert_fixup)
  then show ?thesis using r rb by (auto simp: nodes_plug)
qed

section \<open>Insertion through the linking function\<close>

lemma links_at_unique: "links_at h p t \<Longrightarrow> links_at h p t' \<Longrightarrow> t = t'"
proof (induction t arbitrary: p t')
  case Leaf
  then show ?case by (cases t') auto
next
  case (Node l a c r)
  then show ?case by (cases t') auto
qed

lemma tree_at_links:
  "tree_at h par t \<Longrightarrow> ph_aligned par \<Longrightarrow> links_at h (root_of t) t"
proof (induction t arbitrary: par)
  case Leaf
  then show ?case by simp
next
  case (Node l a c r)
  then show ?case by (auto simp: ph_color_packed)
qed

lemma first_insert:
  "ph_link_and_insert fresh_state 8 0 ROOT_LINK =
     Some \<lparr>ph_root = 8, ph_mem = (\<lambda>a. zero_node)(8 := \<lparr>ph_right = 0, ph_left = 0, ph_parent_color = 1\<rparr>)\<rparr>"
  by (simp add: ph_link_and_insert_def ph_insert_color_def ph_insert_def
     ph_link_node_def fresh_state_def zero_node_def ph_red_parent_def ph_parent_def
     ph_insert_loop.simps ph_set_parent_color_def ph_BLACK_def)

lemma second_insert:
  "ph_link_and_insert
     \<lparr>ph_root = 8, ph_mem = (\<lambda>a. zero_node)(8 := \<lparr>ph_right = 0, ph_left = 0, ph_parent_color = 1\<rparr>)\<rparr>
     16 8 (RIGHT_LINK 8) = Some unbalanced_state"
  by (simp add: ph_link_and_insert_def ph_insert_color_def ph_insert_def unbalanced_state_def
     ph_link_node_def zero_node_def ph_red_parent_def ph_parent_def
     ph_insert_loop.simps ph_set_parent_color_def ph_BLACK_def)

lemma self_parent_insert:
  "ph_link_and_insert unlinked_state 8 0 ROOT_LINK =
     Some \<lparr>ph_root = 8,
           ph_mem = (\<lambda>a. empty_node a)(8 := \<lparr>ph_right = 8, ph_left = 0, ph_parent_color = 8\<rparr>)\<rparr>"
  by (simp add: ph_link_and_insert_def ph_insert_color_def ph_insert_def
     ph_link_node_def unlinked_state_def empty_node_def ph_red_parent_def ph_parent_def
     ph_insert_loop.simps ph_set_parent_color_def ph_BLACK_def ph_RED_def ph_is_black_def
     ph_color_def Let_def ph_is_red_def insert_case3_L_def ph_rotate_set_parents_def
     ph_change_child_def dummy_rotate_def)

text \<open>
  What becomes of the parent that \<^verbatim>\<open>ph_link_node\<close> drops. After \<^verbatim>\<open>ph_link_node\<close> the node is
  not linked as a RED leaf below its parent, so the state holds no tree and the insertion
  is not a valid one. Two such insertions into the empty tree, on zero-initialised nodes,
  return and lay out the BLACK root 8 with the BLACK right child 16 and no left child,
  which is not balanced.
\<close>

theorem ph_insert_sequence_unbalanced:
  "two_inserts = Some unbalanced_state \<and>
   links_at (ph_mem unbalanced_state) (ph_root unbalanced_state)
     (Node Leaf 8 Black (Node Leaf 16 Black Leaf)) \<and>
   \<not> black_balanced (Node Leaf 8 Black (Node Leaf 16 Black Leaf)) \<and>
   \<not> rb_tree (Node Leaf 8 Black (Node Leaf 16 Black Leaf))"
proof -
  have "two_inserts = Some unbalanced_state"
    by (simp add: two_inserts_def first_insert second_insert)
  moreover have "links_at (ph_mem unbalanced_state) (ph_root unbalanced_state)
     (Node Leaf 8 Black (Node Leaf 16 Black Leaf))"
    by (simp add: unbalanced_state_def ph_color_def ph_BLACK_def zero_node_def)
  ultimately show ?thesis by (simp add: rb_tree_def)
qed

section \<open>Erase\<close>

lemma color_neq [simp]: "(c \<noteq> Black) = (c = Red)" "(c \<noteq> Red) = (c = Black)"
  by (cases c; simp)+

lemma inorder_paint [simp]: "inorder (paint c t) = inorder t"
  by (cases t) auto


lemma balanced_plug_iff:
  "black_balanced (plug fs t) = (black_balanced t \<and> hole_balanced fs (black_height t))"
proof (induction fs arbitrary: t)
  case Nil
  then show ?case by simp
next
  case (Cons f fs)
  show ?case using Cons[of "plug1 f t"] by (cases f) auto
qed

lemma inorder_plug: "inorder (plug fs t) = ctx_before fs @ inorder t @ ctx_after fs"
  by (induction fs arbitrary: t rule: ctx_before.induct) auto

lemma black_sibling_L:
  assumes "erase_black_sibling_L x p pc s = (sub, again)"
    "root_color s = Black" "no_red_red s" "black_balanced s" "black_height s = Suc (black_height x)"
    "root_color x = Black" "no_red_red x" "black_balanced x"
  shows "no_red_red sub \<and> black_balanced sub \<and> inorder sub = inorder x @ p # inorder s \<and>
         (root_color sub = Black \<or> pc = Red) \<and>
         (again \<longrightarrow> pc = Black \<and> root_color sub = Black \<and> black_height sub = Suc (black_height x)) \<and>
         (\<not> again \<longrightarrow> black_height sub = Suc (black_height x) + (if pc = Black then 1 else 0))"
  using assms
  by (cases s) (auto split: tree.splits color.splits if_splits
      simp: no_red_red_paint_Black black_height_paint_Black)


lemma black_sibling_R:
  assumes "erase_black_sibling_R x p pc s = (sub, again)"
    "root_color s = Black" "no_red_red s" "black_balanced s" "black_height s = Suc (black_height x)"
    "root_color x = Black" "no_red_red x" "black_balanced x"
  shows "no_red_red sub \<and> black_balanced sub \<and> inorder sub = inorder s @ p # inorder x \<and>
         (root_color sub = Black \<or> pc = Red) \<and>
         (again \<longrightarrow> pc = Black \<and> root_color sub = Black \<and> black_height sub = Suc (black_height x)) \<and>
         (\<not> again \<longrightarrow> black_height sub = Suc (black_height x) + (if pc = Black then 1 else 0))"
  using assms
  by (cases s) (auto split: tree.splits color.splits if_splits
      simp: no_red_red_paint_Black black_height_paint_Black)

lemma ctx_ok_hd:
  "ctx_ok (f # fs) \<Longrightarrow>
   (fs = [] \<longrightarrow> frame_color f = Black) \<and>
   (frame_color f = Red \<longrightarrow> root_color (sibling f) = Black \<and> fs \<noteq> [] \<and> frame_color (hd fs) = Black)"
  by (cases fs) auto


lemma plug_ok:
  assumes "ctx_ok fs" "no_red_red t" "black_balanced t" "hole_balanced fs (black_height t)"
    "root_color t = Black \<or> (fs \<noteq> [] \<and> frame_color (hd fs) = Black)"
    "inorder t = inorder x"
  shows "erased_ok fs x (plug fs t)"
proof -
  have "no_red_red (plug fs t) \<and> (fs \<noteq> [] \<longrightarrow> root_color (plug fs t) = Black)"
    using no_red_red_plug[of fs t] assms(1,2,5) by auto
  moreover have "fs = [] \<longrightarrow> root_color (plug fs t) = Black" using assms(5) by auto
  moreover have "black_balanced (plug fs t)" using assms(3,4) by (simp add: balanced_plug_iff)
  ultimately show ?thesis using assms(6) by (auto simp: erased_ok_def inorder_plug)
qed

lemma erase_color_ok:
  assumes "ctx_ok fs" "no_red_red x" "root_color x = Black" "black_balanced x"
    "hole_balanced fs (Suc (black_height x))"
  shows "erased_ok fs x (erase_color fs x)"
  using assms
proof (induction fs arbitrary: x)
  case Nil
  then show ?case by (simp add: erased_ok_def)
next
  case (Cons f fs)
  have ok: "ctx_ok fs" using Cons.prems(1) by (rule ctx_ok_tl)
  have ns: "no_red_red (sibling f)" using Cons.prems(1) by (rule ctx_ok_sibling)
  note hd = ctx_ok_hd[OF Cons.prems(1)]
  from Cons.prems(5) have sb: "black_balanced (sibling f)"
    "black_height (sibling f) = Suc (black_height x)"
    and hb: "hole_balanced fs (Suc (black_height x) + (if frame_color f = Black then 1 else 0))"
    by simp_all
  show ?case
  proof (cases f)
    case (Left_of p pc s)
    show ?thesis
    proof (cases "root_color s = Red")
      case True
      then obtain sl sa sr where s: "s = Node sl sa Red sr" by (cases s) auto
      have pc: "pc = Black" using hd Left_of True by auto
      obtain sub again where r: "erase_black_sibling_L x p Red sl = (sub, again)"
        by (metis surj_pair)
      have sl: "root_color sl = Black" "no_red_red sl" "black_balanced sl"
        "black_height sl = Suc (black_height x)"
        and sr: "root_color sr = Black" "no_red_red sr" "black_balanced sr"
        "black_height sr = Suc (black_height x)"
        using ns sb Left_of s by auto
      note b = black_sibling_L[OF r sl Cons.prems(3,2,4)]
      have na: "\<not> again" using b by auto
      define G where "G = Node sub sa Black sr"
      have "erased_ok fs (plug1 f x) (plug fs G)"
      proof (rule plug_ok[OF ok])
        show "no_red_red G" using b sr by (simp add: G_def)
        show "black_balanced G" using b sr na by (simp add: G_def)
        show "hole_balanced fs (black_height G)" using hb b na pc Left_of by (simp add: G_def)
        show "root_color G = Black \<or> fs \<noteq> [] \<and> frame_color (hd fs) = Black" by (simp add: G_def)
        show "inorder G = inorder (plug1 f x)" using b Left_of s by (simp add: G_def)
      qed
      then show ?thesis using Left_of s r pc by (simp add: erased_ok_def G_def)
    next
      case False
      then have sblack: "root_color s = Black" by simp
      obtain sub again where r: "erase_black_sibling_L x p pc s = (sub, again)"
        by (metis surj_pair)
      have s': "no_red_red s" "black_balanced s" "black_height s = Suc (black_height x)"
        using ns sb Left_of by auto
      note b = black_sibling_L[OF r sblack s' Cons.prems(3,2,4)]
      have e: "erase_color (f # fs) x = (if again then erase_color fs sub else plug fs sub)"
        using Left_of r False by (cases s) (auto split: color.splits)
      show ?thesis
      proof (cases again)
        case True
        have "erased_ok fs sub (erase_color fs sub)"
          using Cons.IH[of sub] ok b True hb Left_of by simp
        then show ?thesis using e True b Left_of by (simp add: erased_ok_def inorder_plug)
      next
        case na: False
        have "erased_ok fs (plug1 f x) (plug fs sub)"
        proof (rule plug_ok[OF ok])
          show "no_red_red sub" "black_balanced sub" using b by simp_all
          show "hole_balanced fs (black_height sub)" using hb b na Left_of by simp
          show "root_color sub = Black \<or> fs \<noteq> [] \<and> frame_color (hd fs) = Black"
            using b hd Left_of by auto
          show "inorder sub = inorder (plug1 f x)" using b Left_of by simp
        qed
        then show ?thesis using e na by (simp add: erased_ok_def)
      qed
    qed
  next
    case (Right_of s p pc)
    show ?thesis
    proof (cases "root_color s = Red")
      case True
      then obtain sl sa sr where s: "s = Node sl sa Red sr" by (cases s) auto
      have pc: "pc = Black" using hd Right_of True by auto
      obtain sub again where r: "erase_black_sibling_R x p Red sr = (sub, again)"
        by (metis surj_pair)
      have sl: "root_color sl = Black" "no_red_red sl" "black_balanced sl"
        "black_height sl = Suc (black_height x)"
        and sr: "root_color sr = Black" "no_red_red sr" "black_balanced sr"
        "black_height sr = Suc (black_height x)"
        using ns sb Right_of s by auto
      note b = black_sibling_R[OF r sr Cons.prems(3,2,4)]
      have na: "\<not> again" using b by auto
      define G where "G = Node sl sa Black sub"
      have "erased_ok fs (plug1 f x) (plug fs G)"
      proof (rule plug_ok[OF ok])
        show "no_red_red G" using b sl by (simp add: G_def)
        show "black_balanced G" using b sl na by (simp add: G_def)
        show "hole_balanced fs (black_height G)" using hb b sl na pc Right_of by (simp add: G_def)
        show "root_color G = Black \<or> fs \<noteq> [] \<and> frame_color (hd fs) = Black" by (simp add: G_def)
        show "inorder G = inorder (plug1 f x)" using b Right_of s by (simp add: G_def)
      qed
      then show ?thesis using Right_of s r pc by (simp add: erased_ok_def G_def)
    next
      case False
      then have sblack: "root_color s = Black" by simp
      obtain sub again where r: "erase_black_sibling_R x p pc s = (sub, again)"
        by (metis surj_pair)
      have s': "no_red_red s" "black_balanced s" "black_height s = Suc (black_height x)"
        using ns sb Right_of by auto
      note b = black_sibling_R[OF r sblack s' Cons.prems(3,2,4)]
      have e: "erase_color (f # fs) x = (if again then erase_color fs sub else plug fs sub)"
        using Right_of r False by (cases s) (auto split: color.splits)
      show ?thesis
      proof (cases again)
        case True
        have "erased_ok fs sub (erase_color fs sub)"
          using Cons.IH[of sub] ok b True hb Right_of by simp
        then show ?thesis using e True b Right_of by (simp add: erased_ok_def inorder_plug)
      next
        case na: False
        have "erased_ok fs (plug1 f x) (plug fs sub)"
        proof (rule plug_ok[OF ok])
          show "no_red_red sub" "black_balanced sub" using b by simp_all
          show "hole_balanced fs (black_height sub)" using hb b na Right_of by simp
          show "root_color sub = Black \<or> fs \<noteq> [] \<and> frame_color (hd fs) = Black"
            using b hd Right_of by auto
          show "inorder sub = inorder (plug1 f x)" using b Right_of by simp
        qed
        then show ?thesis using e na by (simp add: erased_ok_def)
      qed
    qed
  qed
qed


lemma plug_append: "plug (gs @ hs) t = plug hs (plug gs t)"
  by (induction gs arbitrary: t) auto

lemma ctx_nodes_append: "ctx_nodes (gs @ hs) = ctx_nodes gs \<union> ctx_nodes hs"
  by (induction gs) auto

lemma ctx_before_append: "ctx_before (gs @ hs) = ctx_before hs @ ctx_before gs"
  by (induction gs rule: ctx_before.induct) auto

lemma ctx_after_append: "ctx_after (gs @ hs) = ctx_after gs @ ctx_after hs"
  by (induction gs rule: ctx_after.induct) auto

lemma locate_None: "n \<notin> nodes t \<Longrightarrow> locate n fs t = None"
  by (induction t arbitrary: fs) auto

lemma locate_plug:
  "n \<notin> ctx_nodes fs \<Longrightarrow> locate n gs (plug fs (Node l n c r)) = Some (fs @ gs, Node l n c r)"
proof (induction fs arbitrary: gs rule: rev_induct)
  case Nil
  then show ?case by simp
next
  case (snoc f fs)
  then have n: "n \<notin> ctx_nodes fs" "n \<noteq> frame_addr f" "n \<notin> nodes (sibling f)"
    by (auto simp: ctx_nodes_append)
  show ?case
    using snoc.IH[OF n(1)] n(2,3) by (cases f) (auto simp: plug_append locate_None)
qed

lemma leftmost_plug:
  "leftmost gs0 t = (gs, t') \<Longrightarrow> t \<noteq> Leaf \<Longrightarrow>
   \<exists>ks s sc ch. gs = ks @ gs0 \<and> t' = Node Leaf s sc ch \<and> plug ks t' = t \<and>
                ctx_before ks = [] \<and> ctx_nodes ks \<subseteq> nodes t"
proof (induction gs0 t arbitrary: gs t' rule: leftmost.induct)
  case (1 fs ll la lc lr a c r)
  from 1 obtain ks s sc ch where
    k: "gs = ks @ Left_of a c r # fs" "t' = Node Leaf s sc ch" "plug ks t' = Node ll la lc lr"
      "ctx_before ks = []" "ctx_nodes ks \<subseteq> nodes (Node ll la lc lr)"
    by fastforce
  show ?case
    apply (rule exI[of _ "ks @ [Left_of a c r]"])
    using k by (auto simp: plug_append ctx_before_append ctx_nodes_append)
qed auto

lemma ctx_ok_Cons:
  "ctx_ok (f # fs) =
     (no_red_red (sibling f) \<and> (fs = [] \<longrightarrow> frame_color f = Black) \<and>
      (frame_color f = Red \<longrightarrow> root_color (sibling f) = Black \<and> fs \<noteq> [] \<and> frame_color (hd fs) = Black) \<and>
      ctx_ok fs)"
  by (cases fs) auto

lemma ctx_ok_readdress:
  "ctx_ok (gs @ Right_of l s c # fs) = ctx_ok (gs @ Right_of l n c # fs)"
proof (induction gs)
  case Nil
  show ?case by (simp add: ctx_ok_Cons del: ctx_ok.simps)
next
  case (Cons g gs)
  have "frame_color (hd (gs @ Right_of l s c # fs)) = frame_color (hd (gs @ Right_of l n c # fs))"
    by (cases gs) auto
  then show ?case using Cons by (simp add: ctx_ok_Cons del: ctx_ok.simps)
qed

lemma hole_balanced_readdress:
  "hole_balanced (gs @ Right_of l s c # fs) k = hole_balanced (gs @ Right_of l n c # fs) k"
  by (induction gs arbitrary: k) auto

lemma red_hole:
  "no_red_red (plug hs t) \<Longrightarrow> root_color (plug hs t) = Black \<Longrightarrow> root_color t = Red \<Longrightarrow>
   hs \<noteq> [] \<and> frame_color (hd hs) = Black"
proof (cases hs)
  case Nil
  assume "root_color (plug hs t) = Black" "root_color t = Red"
  then show ?thesis using Nil by simp
next
  case (Cons f fs)
  assume "no_red_red (plug hs t)" "root_color t = Red"
  then have "no_red_red (plug1 f t)" "root_color t = Red"
    using Cons no_red_red_plug_hole[of fs "plug1 f t"] by auto
  then show ?thesis using Cons by (cases f; cases t) auto
qed

lemma hole_parent_nodes: "hs \<noteq> [] \<Longrightarrow> hole_parent par hs \<in> ctx_nodes hs"
  by (cases hs) auto

lemma erased_okD:
  "erased_ok fs x t \<Longrightarrow> rb_tree t \<and> inorder t = ctx_before fs @ inorder x @ ctx_after fs"
  by (simp add: erased_ok_def rb_tree_def inorder_plug)

lemma remove_ok:
  assumes "ctx_ok hs" "no_red_red (Node a n c b)" "black_balanced (Node a n c b)"
    "a = Leaf \<or> b = Leaf"
    "hole_balanced hs (black_height (Node a n c b))"
    "c = Red \<longrightarrow> hs \<noteq> [] \<and> frame_color (hd hs) = Black"
    "hs \<noteq> [] \<longrightarrow> hole_parent 0 hs \<noteq> 0"
    "child = (if a = Leaf then b else a)"
  shows "child \<noteq> Leaf \<longrightarrow> c = Black \<and> erased_ok hs child (plug hs (paint Black child))"
    and "child = Leaf \<longrightarrow>
         erased_ok hs Leaf (if (if c = Black then hole_parent 0 hs else 0) \<noteq> 0
                            then erase_color hs Leaf else plug hs Leaf)"
proof -
  show "child \<noteq> Leaf \<longrightarrow> c = Black \<and> erased_ok hs child (plug hs (paint Black child))"
  proof
    assume ne: "child \<noteq> Leaf"
    have h0: "black_height child = 0" using assms(3,4,8) by auto
    have red: "root_color child = Red" using ne h0 by (cases child) (auto split: if_splits)
    have cb: "c = Black" using assms(2,4,8) red ne by (cases c) auto
    have nc: "no_red_red child" "black_balanced child" using assms(2,3,4,8) by auto
    have "erased_ok hs child (plug hs (paint Black child))"
    proof (rule plug_ok[OF assms(1)])
      show "no_red_red (paint Black child)" using nc by (simp add: no_red_red_paint_Black)
      show "black_balanced (paint Black child)" using nc by simp
      show "hole_balanced hs (black_height (paint Black child))"
        using assms(5,4,8) cb h0 red by (auto simp: black_height_paint_Black)
      show "root_color (paint Black child) = Black \<or> hs \<noteq> [] \<and> frame_color (hd hs) = Black"
        by simp
      show "inorder (paint Black child) = inorder child" by simp
    qed
    with cb show "c = Black \<and> erased_ok hs child (plug hs (paint Black child))" by simp
  qed
  show "child = Leaf \<longrightarrow>
         erased_ok hs Leaf (if (if c = Black then hole_parent 0 hs else 0) \<noteq> 0
                            then erase_color hs Leaf else plug hs Leaf)"
  proof
    assume "child = Leaf"
    then have ab: "a = Leaf" "b = Leaf" using assms(4,8) by (auto split: if_splits)
    show "erased_ok hs Leaf (if (if c = Black then hole_parent 0 hs else 0) \<noteq> 0
                            then erase_color hs Leaf else plug hs Leaf)"
    proof (cases "c = Black \<and> hs \<noteq> []")
      case True
      have "erased_ok hs Leaf (erase_color hs Leaf)"
        using assms(1,5) ab True by (intro erase_color_ok) auto
      then show ?thesis using True assms(7) by simp
    next
      case False
      have "erased_ok hs Leaf (plug hs Leaf)"
      proof (rule plug_ok[OF assms(1)])
        show "hole_balanced hs (black_height Leaf)"
        proof (cases "c = Black")
          case True
          then show ?thesis using False by simp
        next
          case False
          then show ?thesis using assms(5) ab by simp
        qed
      qed simp_all
      then show ?thesis using False by auto
    qed
  qed
qed


lemma ctx_nodes_set: "ctx_nodes fs = set (ctx_before fs) \<union> set (ctx_after fs)"
  by (induction fs rule: ctx_before.induct) (auto simp: set_inorder)


lemma remove1_mid:
  "n \<notin> set xs \<Longrightarrow> remove1 n (xs @ n # ys) = xs @ ys"
  by (simp add: remove1_append)



section \<open>Sequences of insertions and erasures\<close>

lemma ph_tree_unique: "ph_tree s t \<Longrightarrow> ph_tree s t' \<Longrightarrow> t = t'"
proof -
  assume a: "ph_tree s t" "ph_tree s t'"
  have z: "ph_aligned 0" by (simp add: ph_aligned_def)
  have "links_at (ph_mem s) (ph_root s) t" "links_at (ph_mem s) (ph_root s) t'"
    using a tree_at_links[of "ph_mem s" 0 t] tree_at_links[of "ph_mem s" 0 t'] z
    by (simp_all add: ph_tree_def)
  then show "t = t'" by (rule links_at_unique)
qed

lemma insert_color_refines:
  assumes "rb_tree (plug fs Leaf)" "ph_tree s (plug fs (Node Leaf node Red Leaf))"
  shows "\<exists>s'. ph_insert_color s node = Some s' \<and>
           ph_tree s' (insert_fixup fs (Node Leaf node Red Leaf)) \<and>
           rb_tree (insert_fixup fs (Node Leaf node Red Leaf))"
proof -
  have c: "ctx_ok fs"
    using assms(1) rb_ctx_ok[of fs Leaf] by (cases "fs = []") (simp_all add: rb_tree_def)
  then have inv: "insert_inv fs (Node Leaf node Red Leaf)" by (simp add: insert_inv_def)
  have "black_balanced (plug fs (Node Leaf node Red Leaf))"
    using balanced_plug[of fs Leaf "Node Leaf node Red Leaf"] assms(1) by (simp add: rb_tree_def)
  then have rb: "rb_tree (insert_fixup fs (Node Leaf node Red Leaf))"
    using inv by (intro insert_fixup_rb)
  from insert_entry[OF assms(2) c, of dummy_rotate "()"]
    insert_loop_correct[OF assms(2) inv, of dummy_rotate "()"]
  obtain s' u' where "ph_insert dummy_rotate s () node = Some (s', u')"
    "ph_tree s' (insert_fixup fs (Node Leaf node Red Leaf))"
    by auto
  then show ?thesis using rb by (auto simp: ph_insert_color_def)
qed

lemma node_position: "node \<in> nodes T \<Longrightarrow> \<exists>fs l c r. T = plug fs (Node l node c r)"
proof (induction T)
  case Leaf
  then show ?case by simp
next
  case (Node l a c r)
  show ?case
  proof (cases "a = node")
    case True
    then have "Node l a c r = plug [] (Node l node c r)" by simp
    then show ?thesis by blast
  next
    case False
    then consider "node \<in> nodes l" | "node \<in> nodes r" using Node.prems by auto
    then show ?thesis
    proof cases
      case 1
      then obtain fs l' c' r' where "l = plug fs (Node l' node c' r')" using Node.IH(1) by blast
      then have "Node l a c r = plug (fs @ [Left_of a c r]) (Node l' node c' r')"
        by (simp add: plug_append)
      then show ?thesis by blast
    next
      case 2
      then obtain fs l' c' r' where "r = plug fs (Node l' node c' r')" using Node.IH(2) by blast
      then have "Node l a c r = plug (fs @ [Right_of l a c]) (Node l' node c' r')"
        by (simp add: plug_append)
      then show ?thesis by blast
    qed
  qed
qed

lemma erase_preserves:
  assumes "rb_tree T" "distinct (inorder T)" "0 \<notin> nodes T" "node \<in> nodes T"
  shows "\<exists>T'. ph_erase node T = Some T' \<and> rb_tree T' \<and>
              inorder T' = remove1 node (inorder T)"
proof -
  from node_position[OF assms(4)] obtain fs l c r where T: "T = plug fs (Node l node c r)"
    by blast
  have rb: "root_color T = Black" "no_red_red T" "black_balanced T"
    using assms(1) by (simp_all add: rb_tree_def)
  have io: "inorder T = ctx_before fs @ inorder l @ node # inorder r @ ctx_after fs"
    by (simp add: T inorder_plug)
  have dist: "distinct (ctx_before fs @ inorder l @ node # inorder r @ ctx_after fs)"
    using assms(2) io by simp
  have nT: "nodes T = insert node (nodes l \<union> nodes r \<union> ctx_nodes fs)"
    by (auto simp: T nodes_plug)
  have "node \<notin> ctx_nodes fs" using dist by (auto simp: ctx_nodes_set)
  then have loc: "locate node [] T = Some (fs, Node l node c r)"
    using locate_plug[of node fs "[]" l c r] by (simp add: T)
  have nl: "node \<notin> set (ctx_before fs @ inorder l)" using dist by auto
  have rem: "remove1 node (inorder T) = ctx_before fs @ inorder l @ inorder r @ ctx_after fs"
    using remove1_mid[OF nl] io by simp
  have fin: "rb_tree T' \<and> inorder T' = remove1 node (inorder T)"
    if "erased_ok hs x T'" "ctx_before hs @ inorder x @ ctx_after hs = remove1 node (inorder T)"
    for hs x T'
    using erased_okD[OF that(1)] that(2) by simp
  show ?thesis
  proof (cases "l = Leaf \<or> r = Leaf")
    case True
    define child where "child = (if l = Leaf then r else l)"
    have ok: "ctx_ok fs"
      using rb_ctx_ok[of fs "Node l node c r"] rb by (cases "fs = []") (auto simp: T)
    have nt: "no_red_red (Node l node c r)"
      using rb(2) no_red_red_plug_hole unfolding T by blast
    have bt: "black_balanced (Node l node c r)" "hole_balanced fs (black_height (Node l node c r))"
      using rb(3) by (auto simp: T balanced_plug_iff)
    have rc: "c = Red \<longrightarrow> fs \<noteq> [] \<and> frame_color (hd fs) = Black"
      using red_hole[of fs "Node l node c r"] rb by (auto simp: T)
    have hp: "fs \<noteq> [] \<longrightarrow> hole_parent 0 fs \<noteq> 0"
      using hole_parent_nodes[of fs 0] assms(3) nT by auto
    note R = remove_ok[OF ok nt bt(1) True bt(2) rc hp child_def]
    have ioc: "ctx_before fs @ inorder child @ ctx_after fs = remove1 node (inorder T)"
      using True rem by (auto simp: child_def)
    show ?thesis
    proof (cases "child = Leaf")
      case cl: True
      have "ph_erase node T =
            Some (if (if c = Black then hole_parent 0 fs else 0) \<noteq> 0
                  then erase_color fs Leaf else plug fs Leaf)"
        using loc True cl by (simp add: ph_erase_def erase_augmented_def child_def Let_def)
      then show ?thesis using fin[of fs Leaf] R(2) cl ioc by simp
    next
      case cn: False
      have "ph_erase node T = Some (plug fs (paint c child))"
        using loc True cn by (simp add: ph_erase_def erase_augmented_def child_def Let_def)
      then show ?thesis using fin[of fs child] R(1) cn ioc by simp
    qed
  next
    case False
    then have two: "l \<noteq> Leaf" "r \<noteq> Leaf" by auto
    obtain gs t' where lm: "leftmost [] r = (gs, t')" by (metis surj_pair)
    from leftmost_plug[OF lm two(2)] obtain s sc ch where
      k: "t' = Node Leaf s sc ch" "plug gs t' = r" "ctx_before gs = []" "ctx_nodes gs \<subseteq> nodes r"
      by auto
    define hs0 where "hs0 = gs @ Right_of l node c # fs"
    define hole where "hole = gs @ Right_of l s c # fs"
    have T0: "T = plug hs0 (Node Leaf s sc ch)"
      using k by (simp add: T hs0_def plug_append)
    have ior: "inorder r = s # inorder ch @ ctx_after gs"
      using k(1,3) inorder_plug[of gs t'] k(2) by simp
    have ok: "ctx_ok hole"
      using rb_ctx_ok[of hs0 "Node Leaf s sc ch"] rb T0 ctx_ok_readdress[of gs l s c fs node]
      by (simp add: hole_def hs0_def)
    have nt: "no_red_red (Node Leaf s sc ch)"
      using rb(2) no_red_red_plug_hole unfolding T0 by blast
    have bt: "black_balanced (Node Leaf s sc ch)"
      "hole_balanced hole (black_height (Node Leaf s sc ch))"
      using rb(3) hole_balanced_readdress[of gs l s c fs _ node]
      by (auto simp: T0 balanced_plug_iff hole_def hs0_def)
    have "frame_color (hd hole) = frame_color (hd hs0)"
      by (cases gs) (auto simp: hole_def hs0_def)
    moreover have "hole \<noteq> []" by (simp add: hole_def)
    ultimately have rc: "sc = Red \<longrightarrow> hole \<noteq> [] \<and> frame_color (hd hole) = Black"
      using red_hole[of hs0 "Node Leaf s sc ch"] rb by (auto simp: T0)
    have sr: "s \<in> nodes r" using ior set_inorder[of r] by auto
    have "ctx_nodes hole \<subseteq> nodes T"
      using k(4) sr by (auto simp: hole_def ctx_nodes_append nT)
    then have hp: "hole \<noteq> [] \<longrightarrow> hole_parent 0 hole \<noteq> 0"
      using hole_parent_nodes[of hole 0] assms(3) by auto
    have one: "Leaf = Leaf \<or> ch = Leaf" by simp
    have chd: "ch = (if Leaf = Leaf then ch else Leaf)" by simp
    note R = remove_ok[OF ok nt bt(1) one bt(2) rc hp chd]
    have ioc: "ctx_before hole @ inorder ch @ ctx_after hole = remove1 node (inorder T)"
      using rem ior k(3) by (simp add: hole_def ctx_before_append ctx_after_append)
    show ?thesis
    proof (cases "ch = Leaf")
      case cl: True
      have "ph_erase node T =
            Some (if (if sc = Black then hole_parent 0 hole else 0) \<noteq> 0
                  then erase_color hole Leaf else plug hole Leaf)"
        using loc two lm k(1) cl
        by (simp add: ph_erase_def erase_augmented_def Let_def hole_def)
      then show ?thesis using fin[of hole Leaf] R(2) cl ioc by simp
    next
      case cn: False
      have "ph_erase node T = Some (plug hole (paint Black ch))"
        using loc two lm k(1) cn
        by (simp add: ph_erase_def erase_augmented_def Let_def hole_def)
      then show ?thesis using fin[of hole ch] R(1) cn ioc by simp
    qed
  qed
qed

lemma built_inv: "ph_built t \<Longrightarrow> rb_tree t \<and> distinct (inorder t) \<and> 0 \<notin> nodes t"
proof (induction rule: ph_built.induct)
  case built_empty
  show ?case by (simp add: rb_tree_def)
next
  case (built_insert fs s node s' t')
  from insert_color_refines[of fs s node] built_insert obtain s'' where
    r: "ph_insert_color s node = Some s''"
       "ph_tree s'' (insert_fixup fs (Node Leaf node Red Leaf))"
       "rb_tree (insert_fixup fs (Node Leaf node Red Leaf))"
    by blast
  then have "t' = insert_fixup fs (Node Leaf node Red Leaf)"
    using built_insert.hyps ph_tree_unique[of s' t'] by simp
  moreover have "distinct (inorder t')" "0 \<notin> nodes t'"
    using built_insert.hyps(4) distinct_inorder[of "ph_mem s'" 0 t'] tree_at_nonnull[of "ph_mem s'" 0 t']
    by (simp_all add: ph_tree_def)
  ultimately show ?case using r(3) by simp
next
  case (built_erase t node t')
  have n: "node \<in> nodes t"
  proof (rule ccontr)
    assume "node \<notin> nodes t"
    then have "locate node [] t = None" by (rule locate_None)
    then show False using built_erase.hyps(2) by (simp add: ph_erase_def erase_augmented_def)
  qed
  from erase_preserves[of t node] built_erase n
  have e: "rb_tree t'" "inorder t' = remove1 node (inorder t)" by auto
  have "set (inorder t') \<subseteq> set (inorder t)" using e(2) set_remove1_subset[of node "inorder t"] by simp
  then have "0 \<notin> nodes t'" using built_erase.IH by (auto simp: set_inorder[symmetric])
  then show ?case using e built_erase.IH by simp
qed


lemma built_insert_fixup:
  assumes "ph_built (plug fs Leaf)" "ph_tree s (plug fs (Node Leaf node Red Leaf))"
  shows "ph_built (insert_fixup fs (Node Leaf node Red Leaf))"
proof -
  have "rb_tree (plug fs Leaf)" using built_inv[OF assms(1)] by simp
  from insert_color_refines[OF this assms(2)] obtain s' where
    r: "ph_insert_color s node = Some s'" "ph_tree s' (insert_fixup fs (Node Leaf node Red Leaf))"
    by blast
  show ?thesis by (rule built_insert[OF assms r])
qed

lemma built_example: "ph_built (Node (Node Leaf 8 Red Leaf) 24 Black Leaf)"
proof -
  have s1: "ph_tree root_linked_state (plug [] (Node Leaf 8 Red Leaf))"
    by (simp add: ph_tree_def root_linked_state_def ph_aligned_def ph_RED_def)
  have b1: "ph_built (plug [Right_of Leaf 8 Black] Leaf)"
    using built_insert_fixup[of "[]", OF _ s1] built_empty by simp
  have s2: "ph_tree pair_state (plug [Right_of Leaf 8 Black] (Node Leaf 16 Red Leaf))"
    by (simp add: ph_tree_def pair_state_def ph_aligned_def ph_RED_def ph_BLACK_def)
  have b2: "ph_built (plug chain_ctx Leaf)"
    using built_insert_fixup[OF b1 s2] by (simp add: chain_ctx_def)
  have s3: "ph_tree chain_state (plug chain_ctx (Node Leaf 24 Red Leaf))"
    by (simp add: chain_ctx_def chain_state_def ph_tree_def ph_aligned_def ph_RED_def ph_BLACK_def)
  have b3: "ph_built (Node (Node Leaf 8 Red Leaf) 16 Black (Node Leaf 24 Red Leaf))"
    using built_insert_fixup[OF b2 s3] by (simp add: chain_ctx_def)
  have "ph_erase 16 (Node (Node Leaf 8 Red Leaf) 16 Black (Node Leaf 24 Red Leaf)) =
        Some (Node (Node Leaf 8 Red Leaf) 24 Black Leaf)"
    by (simp add: ph_erase_def erase_augmented_def)
  then show ?thesis using built_erase[OF b3] by simp
qed


text \<open>
  C1. Every tree that a finite sequence of valid insertions and erasures leads to from the
  empty tree satisfies the three red-black invariants: the root, if there is one, is
  BLACK; no RED node has a RED child; all paths from the root to an absent child pass the
  same number of BLACK nodes. The sequence can always go on: with a node linked as a RED
  leaf at any position of the tree \<^verbatim>\<open>ph_insert_color\<close> returns, and \<^verbatim>\<open>ph_erase\<close> of any node
  of the tree returns, each leading to such a tree again.
\<close>

theorem ph_sequence_invariants:
  assumes "ph_built t"
  shows "root_color t = Black \<and> no_red_red t \<and> black_balanced t \<and>
         (\<forall>fs s node. plug fs Leaf = t \<and> ph_tree s (plug fs (Node Leaf node Red Leaf)) \<longrightarrow>
            (\<exists>s' t'. ph_insert_color s node = Some s' \<and> ph_tree s' t' \<and> ph_built t')) \<and>
         (\<forall>node \<in> nodes t. \<exists>t'. ph_erase node t = Some t' \<and> ph_built t')"
proof -
  note inv = built_inv[OF assms]
  have ins: "\<exists>s' t'. ph_insert_color s node = Some s' \<and> ph_tree s' t' \<and> ph_built t'"
    if "plug fs Leaf = t" "ph_tree s (plug fs (Node Leaf node Red Leaf))" for fs s node
  proof -
    have rb: "rb_tree (plug fs Leaf)" using inv that(1) by simp
    from insert_color_refines[OF rb that(2)] obtain s' where
      r: "ph_insert_color s node = Some s'" "ph_tree s' (insert_fixup fs (Node Leaf node Red Leaf))"
      by blast
    have "ph_built (insert_fixup fs (Node Leaf node Red Leaf))"
      using built_insert_fixup[of fs s node] assms that by simp
    then show ?thesis using r by blast
  qed
  have ers: "\<exists>t'. ph_erase node t = Some t' \<and> ph_built t'" if "node \<in> nodes t" for node
  proof -
    from erase_preserves[of t node] inv that obtain t' where "ph_erase node t = Some t'"
      by blast
    then show ?thesis using built_erase[OF assms] by blast
  qed
  show ?thesis using inv ins ers unfolding rb_tree_def by blast
qed

theorem ph_sequence_invariants_witness:
  "ph_built (Node (Node Leaf 8 Red Leaf) 24 Black Leaf) \<and>
   root_color (Node (Node Leaf 8 Red Leaf) 24 Black Leaf) = Black \<and>
   no_red_red (Node (Node Leaf 8 Red Leaf) 24 Black Leaf) \<and>
   black_balanced (Node (Node Leaf 8 Red Leaf) 24 Black Leaf) \<and>
   (\<exists>t'. ph_erase 24 (Node (Node Leaf 8 Red Leaf) 24 Black Leaf) = Some t' \<and> ph_built t')"
  using ph_sequence_invariants [OF built_example] built_example by simp

end
